theory Spec2Isabelle
  imports Complex_Main "HOL-Library.Sublist"
begin

section \<open>Text: characters and the string operations of the scraper\<close>

text \<open>
  Python strings are modelled as \<^typ>\<open>string\<close>: lists of characters with code points
  0..255. The separator \<open>\<cdot>\<close> of the rating line is code point 0xB7. \<open>str.strip\<close>, the
  pattern class \<open>\s\<close> and \<open>str.isspace\<close> agree on the white space of this range:
  0x09..0x0D, 0x1C..0x1F, 0x20, 0x85 and 0xA0.
\<close>

definition LF :: char where
  "LF = CHR 0x0A"

definition CR :: char where
  "CR = CHR 0x0D"

definition middle_dot :: char where
  "middle_dot = CHR 0xB7"

definition is_space :: "char \<Rightarrow> bool" where
  "is_space c = (of_char c \<in> {9, 10, 11, 12, 13, 28, 29, 30, 31, 32, 133, 160 :: nat})"

definition is_digit :: "char \<Rightarrow> bool" where
  "is_digit c = (48 \<le> (of_char c :: nat) \<and> (of_char c :: nat) \<le> 57)"

text \<open>\<open>s.strip()\<close>: leading and trailing white space removed.\<close>

definition py_strip :: "string \<Rightarrow> string" where
  "py_strip s = rev (dropWhile is_space (rev (dropWhile is_space s)))"

section \<open>Progress Store\<close>

text \<open>
  The progress file is the only file the store touches: \<open>None\<close> is a missing file,
  \<open>Some content\<close> an existing one. \<open>open(path, 'r')\<close> reads in text mode with universal
  newlines: \<open>\r\n\<close> and a lone \<open>\r\<close> both arrive as \<open>\n\<close>, and iterating the file yields
  the lines, each with its terminating \<open>\n\<close> (the last one without, when the file does
  not end in a line break).
\<close>

type_synonym progress_file = "string option"

fun universal_newlines :: "string \<Rightarrow> string" where
  "universal_newlines [] = []"
| "universal_newlines [c] = (if c = CR then [LF] else [c])"
| "universal_newlines (c # d # cs) =
     (if c = CR then (if d = LF then LF # universal_newlines cs
                      else LF # universal_newlines (d # cs))
      else c # universal_newlines (d # cs))"

fun file_lines :: "string \<Rightarrow> string list" where
  "file_lines [] = []"
| "file_lines (c # cs) =
     (if c = LF then [LF] # file_lines cs
      else (case file_lines cs of [] \<Rightarrow> [[c]] | l # ls \<Rightarrow> (c # l) # ls))"

definition load_completed_keywords :: "progress_file \<Rightarrow> string set" where
  "load_completed_keywords f =
     (case f of
        None \<Rightarrow> {}
      | Some content \<Rightarrow> set (map py_strip (file_lines (universal_newlines content))))"

definition save_completed_keyword :: "string \<Rightarrow> progress_file \<Rightarrow> progress_file" where
  "save_completed_keyword keyword f =
     Some ((case f of None \<Rightarrow> [] | Some content \<Rightarrow> content) @ keyword @ [LF])"


section \<open>Regular expressions, as Python's backtracking matcher runs them\<close>

text \<open>
  The parser's rules are \<open>re.search\<close> calls. A pattern is a syntax tree; matching it at a
  position yields every way to match, most preferred first: an alternation tries its
  left branch first, a greedy repetition tries one more round before it tries to stop.
  \<open>re.search\<close> takes the first way at the leftmost position that has one. A thread is
  the input still to be read together with the groups captured so far.
\<close>

datatype regex =
    Sym "char \<Rightarrow> bool"
  | Seq regex regex
  | Alt regex regex
  | Rep regex nat "nat option"
  | Group nat regex

type_synonym thread = "string \<times> (nat \<rightharpoonup> string)"

text \<open>
  \<open>rep step m n\<close> is the greedy \<open>{m,n}\<close> (\<open>n = None\<close>: no upper bound) of a pattern
  whose threads \<open>step\<close> computes. A round that reads nothing is not repeated; every
  repeated pattern of this program reads at least one character per round.
\<close>

function rep :: "(thread \<Rightarrow> thread list) \<Rightarrow> nat \<Rightarrow> nat option \<Rightarrow> thread \<Rightarrow> thread list" where
  "rep step m n t =
     (if n = Some 0 then []
      else concat (map (rep step (m - 1) (map_option (\<lambda>k. k - 1) n))
                       (filter (\<lambda>t'. length (fst t') < length (fst t)) (step t))))
     @ (if m = 0 then [t] else [])"
  by pat_completeness auto
termination
  by (relation "measure (\<lambda>(step, m, n, t). length (fst t))") auto

declare rep.simps [simp del]

primrec matches :: "regex \<Rightarrow> thread \<Rightarrow> thread list" where
  "matches (Sym p) t =
     (case fst t of [] \<Rightarrow> [] | c # cs \<Rightarrow> if p c then [(cs, snd t)] else [])"
| "matches (Seq a b) t = concat (map (matches b) (matches a t))"
| "matches (Alt a b) t = matches a t @ matches b t"
| "matches (Rep r m n) t = rep (matches r) m n t"
| "matches (Group i r) t =
     map (\<lambda>t'. (fst t', (snd t')(i \<mapsto> take (length (fst t) - length (fst t')) (fst t))))
         (matches r t)"

text \<open>A match object: \<open>group(0)\<close> and the numbered groups that took part.\<close>

record re_match =
  group0 :: string
  groups :: "nat \<rightharpoonup> string"

fun re_search :: "regex \<Rightarrow> string \<Rightarrow> re_match option" where
  "re_search r s =
     (case matches r (s, Map.empty) of
        t # _ \<Rightarrow> Some \<lparr>group0 = take (length s - length (fst t)) s, groups = snd t\<rparr>
      | [] \<Rightarrow> (case s of [] \<Rightarrow> None | _ # cs \<Rightarrow> re_search r cs))"

declare re_search.simps [simp del]

definition lit :: "char \<Rightarrow> regex" where
  "lit c = Sym (\<lambda>x. x = c)"

definition py_lower_char :: "char \<Rightarrow> char" where
  "py_lower_char c =
     (let n = (of_char c :: nat)
      in if (65 \<le> n \<and> n \<le> 90) \<or> (192 \<le> n \<and> n \<le> 222 \<and> n \<noteq> 215)
         then char_of (n + 32) else c)"

definition py_lower :: "string \<Rightarrow> string" where
  "py_lower s = map py_lower_char s"

text \<open>A literal under \<open>re.IGNORECASE\<close>, and a literal word under it.\<close>

definition lit_i :: "char \<Rightarrow> regex" where
  "lit_i c = Sym (\<lambda>x. py_lower_char x = py_lower_char c)"

fun word_i :: "char \<Rightarrow> string \<Rightarrow> regex" where
  "word_i c [] = lit_i c"
| "word_i c (d # ds) = Seq (lit_i c) (word_i d ds)"

definition digit :: regex where
  "digit = Sym is_digit"

definition space :: regex where
  "space = Sym is_space"

text \<open>\<open>(\d\.\d)\<close>\<close>

definition rating_pattern :: regex where
  "rating_pattern = Group 1 (Seq digit (Seq (lit CHR ''.'') digit))"

text \<open>\<open>\((\d{1,3}(,\d{3})*|\d+)\)\<close>\<close>

definition reviews_pattern :: regex where
  "reviews_pattern =
     Seq (lit CHR ''('')
       (Seq (Group 1
               (Alt (Seq (Rep digit 1 (Some 3))
                         (Rep (Group 2 (Seq (lit CHR '','') (Rep digit 3 (Some 3)))) 0 None))
                    (Rep digit 1 None)))
            (lit CHR '')''))"

text \<open>\<open>(\d+\+?)\+?\s+years in business\<close> with \<open>re.IGNORECASE\<close>\<close>

definition years_pattern :: regex where
  "years_pattern =
     Seq (Group 1 (Seq (Rep digit 1 None) (Rep (lit_i CHR ''+'') 0 (Some 1))))
       (Seq (Rep (lit_i CHR ''+'') 0 (Some 1))
          (Seq (Rep space 1 None) (word_i CHR ''y'' ''ears in business'')))"

text \<open>\<open>(\d{5}\s\d{5}|\d{10}|[0-9\s]{8,})\<close>\<close>

definition phone_pattern :: regex where
  "phone_pattern =
     Group 1
       (Alt (Seq (Rep digit 5 (Some 5)) (Seq space (Rep digit 5 (Some 5))))
          (Alt (Rep digit 10 (Some 10))
               (Rep (Sym (\<lambda>c. is_digit c \<or> is_space c)) 8 None)))"


section \<open>Listing Parser\<close>

text \<open>
  A listing fragment is what the three element queries of \<open>parse_gmb_listing\<close> see:
  the text of the first \<open>div.dbg0pd span\<close> and of the first \<open>span.Y0A0hc\<close> (\<open>None\<close>
  when there is no such element, where \<open>find_element\<close> raises), and the texts of the
  direct child \<open>div\<close>s, in document order.
\<close>

record fragment =
  name_span :: "string option"
  rating_span :: "string option"
  child_divs :: "string list"

text \<open>
  The record the parser fills, one field per key of the dictionary; \<open>None\<close> is Python's
  \<open>None\<close>. A rating is the decimal number that \<open>float\<close> reads.
\<close>

record gmb_data =
  Keyword :: string
  Name :: "string option"
  Rating :: "rat option"
  Number_of_Reviews :: "int option"
  Category :: "string option"
  Years_in_Business :: "string option"
  Address :: "string option"
  Phone_Number :: "string option"

datatype exn = NoSuchElementException | ValueError | IndexError

text \<open>
  A statement runs on the dictionary and either completes or raises; the dictionary is
  mutated in place, so what was assigned before a raise stays assigned.
  \<open>try: body / except: pass\<close> keeps the dictionary and drops the exception.
\<close>

type_synonym stmt = "gmb_data \<Rightarrow> exn option \<times> gmb_data"

definition raise :: "exn \<Rightarrow> stmt" where
  "raise x data = (Some x, data)"

definition assign :: "(gmb_data \<Rightarrow> gmb_data) \<Rightarrow> stmt" where
  "assign f data = (None, f data)"

definition and_then :: "stmt \<Rightarrow> stmt \<Rightarrow> stmt" where
  "and_then a b data = (case a data of (Some x, d) \<Rightarrow> (Some x, d) | (None, d) \<Rightarrow> b d)"

definition try_except_pass :: "stmt \<Rightarrow> gmb_data \<Rightarrow> gmb_data" where
  "try_except_pass body data = snd (body data)"

text \<open>\<open>s.split(sep)\<close> for a one-character separator: never an empty list.\<close>

fun py_split :: "char \<Rightarrow> string \<Rightarrow> string list" where
  "py_split sep [] = [[]]"
| "py_split sep (c # cs) =
     (if c = sep then [] # py_split sep cs
      else (case py_split sep cs of [] \<Rightarrow> [[c]] | p # ps \<Rightarrow> (c # p) # ps))"

text \<open>\<open>sep.join(xs)\<close>\<close>

fun py_join :: "string \<Rightarrow> string list \<Rightarrow> string" where
  "py_join sep [] = []"
| "py_join sep [x] = x"
| "py_join sep (x # y # ys) = x @ sep @ py_join sep (y # ys)"

text \<open>\<open>needle in hay\<close> on strings\<close>

fun py_in :: "string \<Rightarrow> string \<Rightarrow> bool" where
  "py_in needle [] = (needle = [])"
| "py_in needle (c # cs) = (prefix needle (c # cs) \<or> py_in needle cs)"

definition digit_value :: "char \<Rightarrow> nat" where
  "digit_value c = of_char c - 48"

text \<open>
  \<open>float(s)\<close> and \<open>int(s)\<close> on the texts the patterns hand them: one digit, a point, one
  digit; and a non-empty run of digits. On any other text the model raises
  \<open>ValueError\<close> (Python reads more forms than these, none of which a group of these
  patterns can hold). \<open>int\<close> also raises \<open>ValueError\<close> on a run of more than
  \<open>int_max_str_digits\<close> digits, the interpreter's limit on the conversion of a string to
  an integer, which the program never changes.
\<close>

definition int_max_str_digits :: nat where
  "int_max_str_digits = 4300"

definition py_float :: "string \<Rightarrow> exn + rat" where
  "py_float s =
     (case s of
        [a, p, b] \<Rightarrow>
          if is_digit a \<and> p = CHR ''.'' \<and> is_digit b
          then Inr (of_nat (digit_value a) + of_nat (digit_value b) / 10)
          else Inl ValueError
      | _ \<Rightarrow> Inl ValueError)"

definition py_int :: "string \<Rightarrow> exn + int" where
  "py_int s =
     (if s \<noteq> [] \<and> (\<forall>c \<in> set s. is_digit c) \<and> length s \<le> int_max_str_digits
      then Inr (foldl (\<lambda>acc c. 10 * acc + int (digit_value c)) 0 s)
      else Inl ValueError)"

text \<open>\<open>re.sub(r'\s+', '', s)\<close>: every run of white space is deleted.\<close>

definition remove_whitespace :: "string \<Rightarrow> string" where
  "remove_whitespace s = filter (\<lambda>c. \<not> is_space c) s"

text \<open>Truth value of a field that holds \<open>None\<close> or a string.\<close>

definition truthy :: "string option \<Rightarrow> bool" where
  "truthy v = (case v of None \<Rightarrow> False | Some s \<Rightarrow> s \<noteq> [])"

definition initial_data :: "string \<Rightarrow> gmb_data" where
  "initial_data keyword =
     \<lparr>Keyword = keyword, Name = None, Rating = None, Number_of_Reviews = None,
      Category = None, Years_in_Business = None, Address = None, Phone_Number = None\<rparr>"

text \<open>Line 204.\<close>

definition name_block :: "fragment \<Rightarrow> stmt" where
  "name_block element =
     (case name_span element of
        None \<Rightarrow> raise NoSuchElementException
      | Some t \<Rightarrow> assign (\<lambda>data. data\<lparr>Name := Some t\<rparr>))"

text \<open>Lines 209 and 210, on \<open>parts[0]\<close>.\<close>

definition rating_stmt :: "string \<Rightarrow> stmt" where
  "rating_stmt part0 =
     (case re_search rating_pattern part0 of
        None \<Rightarrow> assign (\<lambda>data. data)
      | Some r_match \<Rightarrow>
          (case groups r_match 1 of
             None \<Rightarrow> raise ValueError
           | Some g \<Rightarrow>
               (case py_float g of
                  Inl x \<Rightarrow> raise x
                | Inr v \<Rightarrow> assign (\<lambda>data. data\<lparr>Rating := Some v\<rparr>))))"

definition reviews_stmt :: "string \<Rightarrow> stmt" where
  "reviews_stmt part0 =
     (case re_search reviews_pattern part0 of
        None \<Rightarrow> assign (\<lambda>data. data)
      | Some rev_match \<Rightarrow>
          (case groups rev_match 1 of
             None \<Rightarrow> raise ValueError
           | Some g \<Rightarrow>
               (case py_int (filter (\<lambda>c. c \<noteq> CHR '','') g) of
                  Inl x \<Rightarrow> raise x
                | Inr n \<Rightarrow> assign (\<lambda>data. data\<lparr>Number_of_Reviews := Some n\<rparr>))))"

text \<open>Lines 207 to 211.\<close>

definition rating_block :: "fragment \<Rightarrow> stmt" where
  "rating_block element =
     (case rating_span element of
        None \<Rightarrow> raise NoSuchElementException
      | Some rating_line \<Rightarrow>
          (case py_split middle_dot rating_line of
             [] \<Rightarrow> raise IndexError
           | part0 # others \<Rightarrow>
               and_then (rating_stmt part0)
                 (and_then (reviews_stmt part0)
                    (case others of
                       [] \<Rightarrow> assign (\<lambda>data. data)
                     | part1 # _ \<Rightarrow> assign (\<lambda>data. data\<lparr>Category := Some (py_strip part1)\<rparr>)))))"

text \<open>Line 216.\<close>

definition years_stmt :: "string \<Rightarrow> stmt" where
  "years_stmt full_text =
     (case re_search years_pattern full_text of
        None \<Rightarrow> assign (\<lambda>data. data)
      | Some y_match \<Rightarrow> assign (\<lambda>data. data\<lparr>Years_in_Business := groups y_match 1\<rparr>))"

text \<open>Lines 217 to 219.\<close>

definition phone_stmt :: "string \<Rightarrow> stmt" where
  "phone_stmt full_text =
     (case re_search phone_pattern full_text of
        None \<Rightarrow> assign (\<lambda>data. data)
      | Some p_match \<Rightarrow>
          (let phone = py_strip (remove_whitespace (group0 p_match))
           in if length phone \<ge> 8
              then assign (\<lambda>data. data\<lparr>Phone_Number := Some (py_strip (group0 p_match))\<rparr>)
              else assign (\<lambda>data. data)))"

text \<open>Lines 220 to 225: the first child block that passes every filter and is long enough.\<close>

fun address_loop :: "string list \<Rightarrow> gmb_data \<Rightarrow> gmb_data" where
  "address_loop [] data = data"
| "address_loop (div_text # rest) data =
     (let text = py_strip div_text
      in if text = [] \<or> py_in ''years in business'' (py_lower text)
            \<or> (case Phone_Number data of None \<Rightarrow> False | Some ph \<Rightarrow> ph \<noteq> [] \<and> py_in ph text)
            \<or> py_in [middle_dot] text \<or> py_in ''Open'' text \<or> py_in ''Closes'' text
            \<or> py_in ''On-site services'' text
         then address_loop rest data
         else if length text > 15 then data\<lparr>Address := Some text\<rparr>
         else address_loop rest data)"

text \<open>Line 215.\<close>

definition full_text_of :: "string list \<Rightarrow> string" where
  "full_text_of details_divs = py_join '' '' (filter (\<lambda>t. t \<noteq> []) details_divs)"

text \<open>Lines 214 to 225.\<close>

definition details_block :: "fragment \<Rightarrow> stmt" where
  "details_block element =
     (let details_divs = child_divs element;
          full_text = full_text_of details_divs
      in and_then (years_stmt full_text)
           (and_then (phone_stmt full_text)
              (assign (address_loop details_divs))))"

definition parse_gmb_listing :: "fragment \<Rightarrow> string \<Rightarrow> gmb_data" where
  "parse_gmb_listing element keyword =
     try_except_pass (details_block element)
       (try_except_pass (rating_block element)
          (try_except_pass (name_block element) (initial_data keyword)))"


section \<open>Configuration, run state and the browser\<close>

text \<open>
  \<open>config\<close> is not part of the repository; the handler reads two numbers from it,
  taken here as whole seconds, and the notifier reads whether mail is enabled.
  \<open>MAX_GMB_PAGES_TO_SCRAPE\<close> is the module's own constant.
\<close>

record config =
  CAPTCHA_WAIT_TIMEOUT :: nat
  CAPTCHA_CHECK_INTERVAL :: nat
  ENABLE_EMAIL_NOTIFICATIONS :: bool

definition MAX_GMB_PAGES_TO_SCRAPE :: nat where
  "MAX_GMB_PAGES_TO_SCRAPE = 10"

text \<open>
  What a run changes: the progress file, the accumulated records, the calls made to
  \<open>send_error_email\<close> (subject and body), the messages it goes on to hand to the mail
  relay, which it does only when notifications are enabled (line 59; what the relay
  does with a message is not part of the state, and a failure there is caught and
  logged, lines 62 to 72), the page headers written to the log (keyword and page
  number, line 272), and the export written at the end.
\<close>

record run_state =
  progress_file :: progress_file
  all_gmb_data :: "gmb_data list"
  notifications :: "(string \<times> string) list"
  relayed :: "(string \<times> string) list"
  pages_logged :: "(string \<times> nat) list"
  excel_file :: "gmb_data list option"

text \<open>
  A result page of the browser: its listing fragments and, when the page has a
  \<open>#pnnext\<close> control, the page that a click on it loads.
\<close>

datatype page = Page (listings: "fragment list") (next_button: "page option")

text \<open>
  What the browser shows while one keyword is processed: whether the search box
  appears within its wait, whether the reCAPTCHA iframe is found right after the search
  (line 256), what the clock gives for \<open>time.time() - start_time\<close>, in seconds, when the
  loop of \<open>handle_captcha\<close> makes its \<open>k\<close>-th test (line 98), what the \<open>k\<close>-th query for
  that iframe inside \<open>handle_captcha\<close> finds (\<open>True\<close>: still there), whether the `More
  businesses' link becomes clickable within its wait, and the first page of the result
  list. Tests and queries are counted from 0. The clock is the machine's: the time a
  query, the alert or the sleep takes shows in the next reading and nowhere else.
\<close>

record session =
  search_box_found :: bool
  captcha_detected :: bool
  captcha_clock :: "nat \<Rightarrow> rat"
  captcha_polls :: "nat \<Rightarrow> bool"
  more_button_found :: bool
  first_page :: page

section \<open>Notification Sink and CAPTCHA handler\<close>

definition send_error_email :: "config \<Rightarrow> string \<Rightarrow> string \<Rightarrow> run_state \<Rightarrow> run_state" where
  "send_error_email cfg subject body st =
     (let st' = st\<lparr>notifications := notifications st @ [(subject, body)]\<rparr>
      in if \<not> ENABLE_EMAIL_NOTIFICATIONS cfg then st'
         else st'\<lparr>relayed := relayed st' @ [(subject, body)]\<rparr>)"

definition captcha_email_body :: "string \<Rightarrow> string" where
  "captcha_email_body keyword =
     ''Hello,'' @ [LF, LF]
     @ ''The GMB Scraper has encountered a Google CAPTCHA and is paused.'' @ [LF, LF]
     @ ''Keyword: '' @ [CHR 0x22] @ keyword @ [CHR 0x22] @ [LF, LF]
     @ ''Please solve it in the browser. The script will resume automatically.''"

text \<open>
  Lines 104 to 112, the alert of \<open>handle_captcha\<close>: a banner on the console and one call
  of \<open>send_error_email\<close>.
\<close>

definition captcha_alert :: "config \<Rightarrow> string \<Rightarrow> run_state \<Rightarrow> run_state" where
  "captcha_alert cfg keyword st =
     send_error_email cfg ''GMB Scraper Alert: CAPTCHA - Action Required''
       (captcha_email_body keyword) st"

text \<open>
  The loop of \<open>handle_captcha\<close>, lines 98 to 117. \<open>k\<close> counts the rounds begun so far.
  A round reads the clock and leaves the loop when the reading has reached the timeout
  (line 98); otherwise it queries the iframe and returns \<open>True\<close> when it is gone (lines
  99 to 103), alerts unless an alert was sent before (lines 104 to 112), and sleeps
  (line 113). The sleep of \<open>CAPTCHA_CHECK_INTERVAL\<close> seconds changes nothing but the
  clock, so it shows only in the reading of the next round. The loop ends when a
  reading reaches the timeout or a query finds no iframe; with a clock that never gets
  there and an iframe that stays, it does not, so the result is an option and \<open>None\<close> is
  a run that never returns.
\<close>

partial_function (option) captcha_loop ::
  "config \<Rightarrow> session \<Rightarrow> string \<Rightarrow> nat \<Rightarrow> bool \<Rightarrow> run_state \<Rightarrow> (bool \<times> run_state) option"
where
  "captcha_loop cfg driver keyword k alert_sent st =
     (if captcha_clock driver k < of_nat (CAPTCHA_WAIT_TIMEOUT cfg) then
        if \<not> captcha_polls driver k then Some (True, st)
        else captcha_loop cfg driver keyword (Suc k) True
               (if \<not> alert_sent then captcha_alert cfg keyword st else st)
      else Some (False, st))"

declare captcha_loop.simps [code]

definition handle_captcha ::
  "config \<Rightarrow> session \<Rightarrow> string \<Rightarrow> run_state \<Rightarrow> (bool \<times> run_state) option" where
  "handle_captcha cfg driver keyword st = captcha_loop cfg driver keyword 0 False st"

section \<open>Orchestrator\<close>

text \<open>\<open>get_keywords_from_sheet\<close>, on the values of column 1.\<close>

definition get_keywords_from_sheet :: "string list \<Rightarrow> string list" where
  "get_keywords_from_sheet col_values =
     map py_strip (filter (\<lambda>kw. py_strip kw \<noteq> []) (drop 1 col_values))"

text \<open>\<open>find_and_type_in_search_box\<close>: \<open>False\<close> exactly when the wait for the box times out.\<close>

definition find_and_type_in_search_box :: "session \<Rightarrow> string \<Rightarrow> bool" where
  "find_and_type_in_search_box s text = (if search_box_found s then True else False)"

text \<open>
  Lines 278 to 280. The dictionary that \<open>parse_gmb_listing\<close> returns has eight keys and
  is never falsy; a record is appended when its name is neither \<open>None\<close> nor empty.
\<close>

fun collect_listings :: "fragment list \<Rightarrow> string \<Rightarrow> gmb_data list \<Rightarrow> gmb_data list" where
  "collect_listings [] keyword acc = acc"
| "collect_listings (listing_element # rest) keyword acc =
     (let parsed_data = parse_gmb_listing listing_element keyword
      in collect_listings rest keyword
           (if truthy (Name parsed_data) then acc @ [parsed_data] else acc))"

text \<open>
  Lines 271 to 287: the loop over \<open>range(1, MAX_GMB_PAGES_TO_SCRAPE + 1)\<close>, given as
  the list of page numbers still to come, with the page the browser is on.
\<close>

fun pagination_loop :: "nat list \<Rightarrow> string \<Rightarrow> page \<Rightarrow> run_state \<Rightarrow> run_state" where
  "pagination_loop [] keyword pg st = st"
| "pagination_loop (page_num # rest) keyword pg st =
     (let st1 = st\<lparr>pages_logged := pages_logged st @ [(keyword, page_num)]\<rparr>
      in if listings pg = [] then st1
         else
           (let st2 = st1\<lparr>all_gmb_data := collect_listings (listings pg) keyword (all_gmb_data st1)\<rparr>
            in case next_button pg of
                 None \<Rightarrow> st2
               | Some pg' \<Rightarrow> pagination_loop rest keyword pg' st2))"

definition record_completed :: "string \<Rightarrow> run_state \<Rightarrow> run_state" where
  "record_completed keyword st =
     st\<lparr>progress_file := save_completed_keyword keyword (progress_file st)\<rparr>"

text \<open>
  The body of the keyword loop from line 248 on, for a keyword that is not skipped.
  Each \<open>continue\<close> of the source is a branch that returns the state reached. Loading
  the search page, the cookie banner, the scrolling and the random pauses change
  nothing that the run state records and are left out; the browser is taken to raise
  only what the source catches.
\<close>

definition process_keyword :: "config \<Rightarrow> string \<Rightarrow> session \<Rightarrow> run_state \<Rightarrow> run_state option" where
  "process_keyword cfg keyword s st =
     (if \<not> find_and_type_in_search_box s keyword then Some st
      else
        (case (if captcha_detected s then handle_captcha cfg s keyword st
               else Some (True, st)) of
           None \<Rightarrow> None
         | Some (solved, st1) \<Rightarrow>
             if \<not> solved then Some (record_completed keyword st1)
             else if \<not> more_button_found s then Some (record_completed keyword st1)
             else Some (record_completed keyword
                          (pagination_loop [1 ..< MAX_GMB_PAGES_TO_SCRAPE + 1] keyword
                             (first_page s) st1))))"

text \<open>
  Lines 243 to 291: the keywords with their positions, as \<open>enumerate\<close> gives them;
  \<open>browser i\<close> is what the browser shows during round \<open>i\<close>. The set of completed
  keywords is the one loaded at the start and does not grow during the run.
\<close>

fun main_loop ::
  "config \<Rightarrow> (nat \<Rightarrow> session) \<Rightarrow> string set \<Rightarrow> (nat \<times> string) list \<Rightarrow> run_state \<Rightarrow> run_state option"
where
  "main_loop cfg browser completed_keywords [] st = Some st"
| "main_loop cfg browser completed_keywords ((i, keyword) # rest) st =
     (if keyword \<in> completed_keywords then main_loop cfg browser completed_keywords rest st
      else
        (case process_keyword cfg keyword (browser i) st of
           None \<Rightarrow> None
         | Some st' \<Rightarrow> main_loop cfg browser completed_keywords rest st'))"

text \<open>
  The main block up to the export: a run starts with no records, loads the progress
  set, reads the keywords and works through them; the export is written only when
  records were collected (lines 293 to 299).
\<close>

definition main :: "config \<Rightarrow> (nat \<Rightarrow> session) \<Rightarrow> string list \<Rightarrow> run_state \<Rightarrow> run_state option" where
  "main cfg browser col_values st0 =
     (let st = st0\<lparr>all_gmb_data := []\<rparr>;
          completed_keywords = load_completed_keywords (progress_file st);
          keywords_to_scrape = get_keywords_from_sheet col_values
      in case main_loop cfg browser completed_keywords (enumerate 0 keywords_to_scrape) st of
           None \<Rightarrow> None
         | Some st' \<Rightarrow>
             if all_gmb_data st' \<noteq> [] then Some (st'\<lparr>excel_file := Some (all_gmb_data st')\<rparr>)
             else Some st')"


section \<open>Notions used in the statements\<close>

text \<open>A line break is what the text-mode reader takes as the end of a line.\<close>

definition has_line_break :: "string \<Rightarrow> bool" where
  "has_line_break s = (LF \<in> set s \<or> CR \<in> set s)"

text \<open>A progress file that is missing, empty, or ends in a line feed.\<close>

definition ends_in_newline :: "progress_file \<Rightarrow> bool" where
  "ends_in_newline f = (case f of None \<Rightarrow> True | Some c \<Rightarrow> c = [] \<or> last c = LF)"

text \<open>The progress file after a history of saves, starting from no file.\<close>

definition saved_history :: "string list \<Rightarrow> progress_file" where
  "saved_history ks = fold save_completed_keyword ks None"


text \<open>
  The words a pattern stands for, as the usual reading of the pattern syntax has it;
  the matcher is compared with it below.
\<close>

primrec lang :: "regex \<Rightarrow> string set" where
  "lang (Sym p) = {[c] | c. p c}"
| "lang (Seq a b) = {u @ v | u v. u \<in> lang a \<and> v \<in> lang b}"
| "lang (Alt a b) = lang a \<union> lang b"
| "lang (Rep r m n) =
     {concat ws | ws. set ws \<subseteq> lang r \<and> m \<le> length ws
                      \<and> (case n of None \<Rightarrow> True | Some k \<Rightarrow> length ws \<le> k)}"
| "lang (Group i r) = lang r"

primrec group_ids :: "regex \<Rightarrow> nat set" where
  "group_ids (Sym p) = {}"
| "group_ids (Seq a b) = group_ids a \<union> group_ids b"
| "group_ids (Alt a b) = group_ids a \<union> group_ids b"
| "group_ids (Rep r m n) = group_ids r"
| "group_ids (Group i r) = insert i (group_ids r)"

text \<open>The counted part of the reviews pattern, \<open>\d{1,3}(,\d{3})*|\d+\<close>.\<close>

definition count_pattern :: regex where
  "count_pattern =
     Alt (Seq (Rep digit 1 (Some 3))
              (Rep (Group 2 (Seq (lit CHR '','') (Rep digit 3 (Some 3)))) 0 None))
         (Rep digit 1 None)"

text \<open>
  The tokens of the phone rule in the specification's words: five digits, a white-space
  character and five digits; ten digits; or at least eight characters, each a digit or
  white space.
\<close>

definition grouped_digit_token :: "string \<Rightarrow> bool" where
  "grouped_digit_token w =
     ((\<exists>a s b. w = a @ [s] @ b \<and> length a = 5 \<and> length b = 5 \<and> is_space s
               \<and> (\<forall>c \<in> set a. is_digit c) \<and> (\<forall>c \<in> set b. is_digit c))
      \<or> (length w = 10 \<and> (\<forall>c \<in> set w. is_digit c))
      \<or> (8 \<le> length w \<and> (\<forall>c \<in> set w. is_digit c \<or> is_space c)))"

text \<open>The token of the years rule: digits, then possibly one plus sign.\<close>

definition digits_plus_token :: "string \<Rightarrow> bool" where
  "digits_plus_token w =
     (\<exists>ds p. w = ds @ p \<and> ds \<noteq> [] \<and> (\<forall>c \<in> set ds. is_digit c) \<and> (p = [] \<or> p = ''+''))"

text \<open>
  A review count that \<open>int\<close> refuses: the reviews pattern matches in the first segment
  of the rating line, and what it captures has, without its commas, more digits than
  \<open>int\<close> converts.
\<close>

definition count_refused :: "string \<Rightarrow> bool" where
  "count_refused part0 =
     (case re_search reviews_pattern part0 of
        None \<Rightarrow> False
      | Some m \<Rightarrow>
          (case groups m 1 of
             None \<Rightarrow> False
           | Some g \<Rightarrow> int_max_str_digits < length (filter (\<lambda>c. c \<noteq> CHR '','') g)))"

text \<open>
  The extraction rules as the specification lists them, each a function of the one
  part of the fragment it reads, each giving \<open>None\<close> where it finds nothing. The
  category rule gives \<open>None\<close> also where the review count is refused: the statement
  that would store the category is then never reached.
\<close>

definition rule_rating :: "fragment \<Rightarrow> rat option" where
  "rule_rating e =
     (case rating_span e of
        None \<Rightarrow> None
      | Some line \<Rightarrow>
          (case re_search rating_pattern (takeWhile (\<lambda>c. c \<noteq> middle_dot) line) of
             None \<Rightarrow> None
           | Some m \<Rightarrow>
               (case groups m 1 of
                  None \<Rightarrow> None
                | Some g \<Rightarrow> (case py_float g of Inl _ \<Rightarrow> None | Inr v \<Rightarrow> Some v))))"

definition rule_reviews :: "fragment \<Rightarrow> int option" where
  "rule_reviews e =
     (case rating_span e of
        None \<Rightarrow> None
      | Some line \<Rightarrow>
          (case re_search reviews_pattern (takeWhile (\<lambda>c. c \<noteq> middle_dot) line) of
             None \<Rightarrow> None
           | Some m \<Rightarrow>
               (case groups m 1 of
                  None \<Rightarrow> None
                | Some g \<Rightarrow>
                    (case py_int (filter (\<lambda>c. c \<noteq> CHR '','') g) of
                       Inl _ \<Rightarrow> None
                     | Inr n \<Rightarrow> Some n))))"

definition rule_category :: "fragment \<Rightarrow> string option" where
  "rule_category e =
     (case rating_span e of
        None \<Rightarrow> None
      | Some line \<Rightarrow>
          if count_refused (takeWhile (\<lambda>c. c \<noteq> middle_dot) line) then None
          else if middle_dot \<in> set line
          then Some (py_strip (takeWhile (\<lambda>c. c \<noteq> middle_dot)
                                 (drop 1 (dropWhile (\<lambda>c. c \<noteq> middle_dot) line))))
          else None)"

definition rule_years :: "fragment \<Rightarrow> string option" where
  "rule_years e =
     (case re_search years_pattern (full_text_of (child_divs e)) of
        None \<Rightarrow> None
      | Some m \<Rightarrow> groups m 1)"

definition rule_phone :: "fragment \<Rightarrow> string option" where
  "rule_phone e =
     (case re_search phone_pattern (full_text_of (child_divs e)) of
        None \<Rightarrow> None
      | Some m \<Rightarrow>
          if 8 \<le> length (filter is_digit (group0 m)) then Some (py_strip (group0 m))
          else None)"

definition address_skipped :: "string option \<Rightarrow> string \<Rightarrow> bool" where
  "address_skipped phone text =
     (text = [] \<or> py_in ''years in business'' (py_lower text)
      \<or> (case phone of None \<Rightarrow> False | Some ph \<Rightarrow> ph \<noteq> [] \<and> py_in ph text)
      \<or> py_in [middle_dot] text \<or> py_in ''Open'' text \<or> py_in ''Closes'' text
      \<or> py_in ''On-site services'' text)"

definition rule_address :: "fragment \<Rightarrow> string option" where
  "rule_address e =
     find (\<lambda>text. \<not> address_skipped (rule_phone e) text \<and> 15 < length text)
          (map py_strip (child_divs e))"

text \<open>
  No match of a pattern starts inside \<open>pre\<close> when the text is \<open>pre\<close> followed by
  \<open>rest\<close>: then a search of the whole text finds what a search of \<open>rest\<close> finds.
\<close>

fun no_match_before :: "regex \<Rightarrow> string \<Rightarrow> string \<Rightarrow> bool" where
  "no_match_before r [] rest = True"
| "no_match_before r (c # pre) rest =
     (matches r (c # pre @ rest, Map.empty) = [] \<and> no_match_before r pre rest)"

definition parse_by_rules :: "fragment \<Rightarrow> string \<Rightarrow> gmb_data" where
  "parse_by_rules e keyword =
     \<lparr>Keyword = keyword, Name = name_span e, Rating = rule_rating e,
      Number_of_Reviews = rule_reviews e, Category = rule_category e,
      Years_in_Business = rule_years e, Address = rule_address e,
      Phone_Number = rule_phone e\<rparr>"

text \<open>
  The pages a browser can walk through from a page by its `next' controls, and the
  number of pages up to and including the first one that has no listing fragment or no
  `next' control.
\<close>

fun page_chain :: "page \<Rightarrow> page list" where
  "page_chain (Page ls nxt) =
     Page ls nxt # (case nxt of None \<Rightarrow> [] | Some p \<Rightarrow> page_chain p)"

definition pages_until_stop :: "page \<Rightarrow> nat" where
  "pages_until_stop pg =
     Suc (length (takeWhile (\<lambda>p. listings p \<noteq> [] \<and> next_button p \<noteq> None) (page_chain pg)))"

text \<open>The records of one page that the orchestrator keeps.\<close>

definition page_records :: "string \<Rightarrow> page \<Rightarrow> gmb_data list" where
  "page_records keyword pg =
     filter (\<lambda>d. truthy (Name d)) (map (\<lambda>e. parse_gmb_listing e keyword) (listings pg))"

text \<open>
  A record comes from a session when it is the parse, under the keyword, of a listing
  fragment on a page the browser can reach from the first result page.
\<close>

definition scraped_from :: "string \<Rightarrow> session \<Rightarrow> gmb_data \<Rightarrow> bool" where
  "scraped_from keyword s d =
     (\<exists>pg \<in> set (page_chain (first_page s)). \<exists>e \<in> set (listings pg).
        d = parse_gmb_listing e keyword)"

section \<open>Example inputs\<close>

text \<open>
  A configuration with a ten-minute timeout and a five-second interval; the state of a
  first run; a session whose CAPTCHA never goes away, on a clock that shows six seconds
  more at every round; a session without the `More businesses' link; a session with one result page of three fragments, one named, one
  without a name element, one with an empty name; and the record of the named one.
\<close>

abbreviation example_config :: config where
  "example_config \<equiv>
     \<lparr>CAPTCHA_WAIT_TIMEOUT = 600, CAPTCHA_CHECK_INTERVAL = 5, ENABLE_EMAIL_NOTIFICATIONS = True\<rparr>"

abbreviation fresh_state :: run_state where
  "fresh_state \<equiv>
     \<lparr>progress_file = None, all_gmb_data = [], notifications = [], relayed = [],
      pages_logged = [], excel_file = None\<rparr>"

abbreviation stuck_session :: session where
  "stuck_session \<equiv>
     \<lparr>search_box_found = True, captcha_detected = True,
      captcha_clock = (\<lambda>k. 6 * of_nat k), captcha_polls = (\<lambda>k. True),
      more_button_found = True, first_page = Page [] None\<rparr>"

abbreviation bare_session :: session where
  "bare_session \<equiv>
     \<lparr>search_box_found = True, captcha_detected = False,
      captcha_clock = (\<lambda>k. 6 * of_nat k), captcha_polls = (\<lambda>k. False),
      more_button_found = False, first_page = Page [] None\<rparr>"

abbreviation one_page_session :: session where
  "one_page_session \<equiv>
     \<lparr>search_box_found = True, captcha_detected = False,
      captcha_clock = (\<lambda>k. 6 * of_nat k), captcha_polls = (\<lambda>k. False),
      more_button_found = True,
      first_page = Page [\<lparr>name_span = Some ''Acme Plumbing'', rating_span = None, child_divs = []\<rparr>,
                         \<lparr>name_span = None, rating_span = None, child_divs = []\<rparr>,
                         \<lparr>name_span = Some [], rating_span = None, child_divs = []\<rparr>] None\<rparr>"

abbreviation acme_record :: gmb_data where
  "acme_record \<equiv>
     \<lparr>Keyword = ''plumber'', Name = Some ''Acme Plumbing'', Rating = None,
      Number_of_Reviews = None, Category = None, Years_in_Business = None, Address = None,
      Phone_Number = None\<rparr>"

section \<open>Properties of the Progress Store\<close>

lemma un_Cons_other: "c \<noteq> CR \<Longrightarrow> universal_newlines (c # b) = c # universal_newlines b"
  by (cases b) auto

lemma un_id: "CR \<notin> set k \<Longrightarrow> universal_newlines k = k"
  by (induction k) (auto simp: un_Cons_other)

lemma LF_neq_CR: "LF \<noteq> CR"
  by (simp add: LF_def CR_def)

lemma un_append_LF:
  "universal_newlines (a @ LF # b) = universal_newlines (a @ [LF]) @ universal_newlines b"
proof (induction a rule: universal_newlines.induct)
  case 1
  show ?case by (simp add: un_Cons_other LF_neq_CR)
next
  case (2 c)
  show ?case by (simp add: un_Cons_other LF_neq_CR)
next
  case (3 c d cs)
  then show ?case by (auto simp: un_Cons_other LF_neq_CR)
qed

lemma un_snoc_LF_last:
  "universal_newlines (a @ [LF]) \<noteq> [] \<and> last (universal_newlines (a @ [LF])) = LF"
  by (induction a rule: universal_newlines.induct) (auto simp: LF_neq_CR)

lemma file_lines_Nil_iff: "file_lines a = [] \<longleftrightarrow> a = []"
  by (cases a) (auto split: list.splits)

lemma file_lines_append:
  "a = [] \<or> last a = LF \<Longrightarrow> file_lines (a @ b) = file_lines a @ file_lines b"
proof (induction a)
  case Nil
  show ?case by simp
next
  case (Cons c a)
  show ?case
  proof (cases "a = []")
    case True
    with Cons.prems show ?thesis by simp
  next
    case False
    with Cons.prems have "last a = LF" by simp
    with Cons.IH have ih: "file_lines (a @ b) = file_lines a @ file_lines b" by simp
    from False have "file_lines a \<noteq> []" by (simp add: file_lines_Nil_iff)
    then obtain l ls where "file_lines a = l # ls" by (cases "file_lines a") auto
    with ih show ?thesis by simp
  qed
qed

lemma file_lines_single: "LF \<notin> set k \<Longrightarrow> file_lines (k @ [LF]) = [k @ [LF]]"
  by (induction k) (auto split: list.splits)

lemma is_space_LF: "is_space LF"
  by (simp add: is_space_def LF_def)

lemma py_strip_snoc_space: "is_space c \<Longrightarrow> py_strip (k @ [c]) = py_strip k"
proof (cases "\<forall>x\<in>set k. is_space x")
  case True
  assume c: "is_space c"
  from True have 1: "dropWhile is_space k = []"
    by (simp only: dropWhile_eq_Nil_conv) 
  from True c have 2: "dropWhile is_space (k @ [c]) = []"
    by (simp only: dropWhile_eq_Nil_conv) simp
  show ?thesis by (simp only: py_strip_def 1 2)
next
  case False
  assume c: "is_space c"
  from False obtain x where "x \<in> set k" "\<not> is_space x" by blast
  then have "dropWhile is_space (k @ [c]) = dropWhile is_space k @ [c]"
    by (rule dropWhile_append1)
  with c show ?thesis by (simp add: py_strip_def)
qed

lemma ends_in_newline_save: "ends_in_newline (save_completed_keyword k f)"
  by (simp add: ends_in_newline_def save_completed_keyword_def)

lemma ends_in_newline_fold: "ends_in_newline f \<Longrightarrow> ends_in_newline (fold save_completed_keyword ks f)"
  by (induction ks arbitrary: f) (simp_all add: ends_in_newline_save)

lemma lines_after_append:
  assumes "c = [] \<or> last c = LF" and "\<not> has_line_break k"
  shows "file_lines (universal_newlines (c @ k @ [LF])) =
         file_lines (universal_newlines c) @ [k @ [LF]]"
proof -
  from assms(2) have k0: "CR \<notin> set (k @ [LF])" and k2: "LF \<notin> set k"
    using LF_neq_CR by (auto simp: has_line_break_def)
  from k0 have k1: "universal_newlines (k @ [LF]) = k @ [LF]"
    by (rule un_id)
  note k = k1 k2
  show ?thesis
  proof (cases "c = []")
    case True
    with k show ?thesis by (simp add: file_lines_single)
  next
    case False
    with assms(1) obtain a where c: "c = a @ [LF]"
      by (metis append_butlast_last_id)
    have "universal_newlines (c @ k @ [LF]) = universal_newlines (a @ [LF]) @ (k @ [LF])"
      using un_append_LF [of a "k @ [LF]"] k by (simp add: c)
    moreover have "file_lines (universal_newlines (a @ [LF]) @ (k @ [LF])) =
        file_lines (universal_newlines (a @ [LF])) @ file_lines (k @ [LF])"
      by (rule file_lines_append) (simp add: un_snoc_LF_last)
    ultimately show ?thesis using k by (simp add: c file_lines_single)
  qed
qed

lemma load_save:
  assumes "ends_in_newline f" and "\<not> has_line_break k"
  shows "load_completed_keywords (save_completed_keyword k f) =
         insert (py_strip k) (load_completed_keywords f)"
proof (cases f)
  case None
  with lines_after_append [of "[]" k] assms(2) show ?thesis
    by (simp add: load_completed_keywords_def save_completed_keyword_def
        py_strip_snoc_space is_space_LF)
next
  case (Some c)
  with assms(1) have "c = [] \<or> last c = LF" by (simp add: ends_in_newline_def)
  from lines_after_append [OF this assms(2)] Some show ?thesis
    by (simp add: load_completed_keywords_def save_completed_keyword_def
        py_strip_snoc_space is_space_LF)
qed


lemma ends_in_newline_history: "ends_in_newline (saved_history ks)"
  unfolding saved_history_def by (rule ends_in_newline_fold) (simp add: ends_in_newline_def)

lemma dropWhile_snoc_keeps: "\<not> P x \<Longrightarrow> \<exists>ys. dropWhile P (zs @ [x]) = ys @ [x]"
  by (induction zs) auto

lemma py_strip_idem: "py_strip (py_strip s) = py_strip s"
proof -
  define a where "a = dropWhile is_space s"
  define b where "b = rev (dropWhile is_space (rev a))"
  have b: "py_strip s = b" by (simp add: py_strip_def a_def b_def)
  have "dropWhile is_space b = b"
  proof (cases a)
    case Nil
    then show ?thesis by (simp add: b_def)
  next
    case (Cons x a')
    then have eq: "dropWhile is_space s = x # a'"
      by (simp only: a_def)
    have "\<not> is_space x"
      using hd_dropWhile [of is_space s] by (simp only: eq list.sel) simp
    from dropWhile_snoc_keeps [of is_space x "rev a'", OF this]
    obtain ys where ys: "dropWhile is_space (rev a' @ [x]) = ys @ [x]" ..
    have "b = rev (dropWhile is_space (rev a' @ [x]))"
      by (simp only: b_def Cons rev.simps)
    also have "\<dots> = rev (ys @ [x])" by (simp only: ys)
    also have "\<dots> = x # rev ys" by simp
    finally have "b = x # rev ys" .
    with \<open>\<not> is_space x\<close> show ?thesis by simp
  qed
  moreover have "dropWhile is_space (rev b) = rev b"
    by (simp add: b_def)
  ultimately have "py_strip b = b" by (simp add: py_strip_def)
  with b show ?thesis by simp
qed

lemma CR_notin_un: "CR \<notin> set (universal_newlines c)"
  using LF_neq_CR by (induction c rule: universal_newlines.induct) auto

lemma file_lines_shape:
  "l \<in> set (file_lines x) \<Longrightarrow> LF \<notin> set l \<or> (\<exists>l'. l = l' @ [LF] \<and> LF \<notin> set l')"
proof (induction x arbitrary: l)
  case Nil
  then show ?case by simp
next
  case (Cons c cs)
  show ?case
  proof (cases "c = LF")
    case True
    with Cons show ?thesis by auto
  next
    case False
    show ?thesis
    proof (cases "file_lines cs")
      case Nil
      with False Cons.prems show ?thesis by simp
    next
      case (Cons l0 ls)
      with False Cons.prems have "l = c # l0 \<or> l \<in> set ls" by simp
      then show ?thesis
      proof
        assume l: "l = c # l0"
        from Cons have "l0 \<in> set (file_lines cs)" by simp
        from Cons.IH [OF this] show ?thesis
        proof
          assume "LF \<notin> set l0"
          with False l show ?thesis by auto
        next
          assume "\<exists>l'. l0 = l' @ [LF] \<and> LF \<notin> set l'"
          then obtain l' where "l0 = l' @ [LF]" "LF \<notin> set l'" by blast
          with False l have "l = (c # l') @ [LF] \<and> LF \<notin> set (c # l')" by auto
          then show ?thesis by blast
        qed
      next
        assume "l \<in> set ls"
        with Cons have "l \<in> set (file_lines cs)" by simp
        from Cons.IH [OF this] show ?thesis .
      qed
    qed
  qed
qed

lemma set_file_lines: "l \<in> set (file_lines x) \<Longrightarrow> set l \<subseteq> set x"
proof (induction x arbitrary: l)
  case Nil
  then show ?case by simp
next
  case (Cons c cs)
  show ?case
  proof (cases "file_lines cs")
    case Nil
    with Cons.prems show ?thesis by (auto split: if_splits)
  next
    case (Cons l0 ls)
    with Cons.IH [of l0] have "set l0 \<subseteq> set cs" by simp
    moreover from Cons Cons.IH have "\<And>l. l \<in> set ls \<Longrightarrow> set l \<subseteq> set cs" by simp
    ultimately show ?thesis using Cons Cons.prems by (auto split: if_splits)
  qed
qed

lemma set_py_strip: "set (py_strip s) \<subseteq> set s"
proof
  fix x assume "x \<in> set (py_strip s)"
  then have "x \<in> set (dropWhile is_space (rev (dropWhile is_space s)))"
    by (simp add: py_strip_def)
  then have "x \<in> set (rev (dropWhile is_space s))" by (rule set_dropWhileD)
  then have "x \<in> set (dropWhile is_space s)" by simp
  then show "x \<in> set s" by (rule set_dropWhileD)
qed

lemma loaded_clean:
  assumes "k \<in> load_completed_keywords f"
  shows "py_strip k = k \<and> \<not> has_line_break k"
proof -
  from assms obtain c l where l: "l \<in> set (file_lines (universal_newlines c))" and k: "k = py_strip l"
    by (auto simp: load_completed_keywords_def split: option.splits)
  have 1: "py_strip k = k" by (simp add: k py_strip_idem)
  from set_file_lines [OF l] CR_notin_un [of c] have "CR \<notin> set l" by blast
  with set_py_strip [of l] have 2: "CR \<notin> set k" by (auto simp: k)
  from file_lines_shape [OF l] have 3: "LF \<notin> set k"
  proof
    assume "LF \<notin> set l"
    with set_py_strip [of l] show ?thesis by (auto simp: k)
  next
    assume "\<exists>l'. l = l' @ [LF] \<and> LF \<notin> set l'"
    then obtain l' where "l = l' @ [LF]" "LF \<notin> set l'" by blast
    with set_py_strip [of l'] show ?thesis
      by (auto simp: k py_strip_snoc_space is_space_LF)
  qed
  from 1 2 3 show ?thesis by (simp add: has_line_break_def)
qed

lemma load_history_save:
  "\<not> has_line_break k \<Longrightarrow>
   load_completed_keywords (save_completed_keyword k (saved_history ks)) =
   insert (py_strip k) (load_completed_keywords (saved_history ks))"
  by (rule load_save [OF ends_in_newline_history])

text \<open>
  C9 (as amended). For a keyword without a line break, two saves from a missing file
  leave a file of two equal lines, and loading it gives the one-element set of the
  keyword's trimmed text, which is the keyword itself when it carries no outer white
  space; after any history of saves the two saves add just that one element. Loading
  a missing file gives the empty set.
\<close>

theorem save_twice_collapses:
  "(\<not> has_line_break k \<longrightarrow>
      save_completed_keyword k (save_completed_keyword k None) = Some (k @ [LF] @ k @ [LF])
      \<and> file_lines (universal_newlines (k @ [LF] @ k @ [LF])) = [k @ [LF], k @ [LF]]
      \<and> load_completed_keywords (save_completed_keyword k (save_completed_keyword k None))
          = {py_strip k}
      \<and> card (load_completed_keywords
                (save_completed_keyword k (save_completed_keyword k None))) = 1
      \<and> load_completed_keywords
            (save_completed_keyword k (save_completed_keyword k (saved_history ks)))
          = insert (py_strip k) (load_completed_keywords (saved_history ks)))
   \<and> (\<not> has_line_break k \<and> py_strip k = k \<longrightarrow>
      load_completed_keywords (save_completed_keyword k (save_completed_keyword k None)) = {k})
   \<and> load_completed_keywords None = {}"
proof -
  have empty: "load_completed_keywords None = {}"
    by (simp add: load_completed_keywords_def)
  {
    assume k: "\<not> has_line_break k"
    have 1: "save_completed_keyword k (save_completed_keyword k None) = Some (k @ [LF] @ k @ [LF])"
      by (simp add: save_completed_keyword_def)
    have e: "ends_in_newline (save_completed_keyword k None)"
      by (rule ends_in_newline_save)
    have 3: "load_completed_keywords (save_completed_keyword k (save_completed_keyword k None))
          = {py_strip k}"
      by (simp add: load_save [OF e k] load_save [OF _ k] ends_in_newline_def empty)
    have 2: "file_lines (universal_newlines (k @ [LF] @ k @ [LF])) = [k @ [LF], k @ [LF]]"
      using lines_after_append [of "k @ [LF]" k] lines_after_append [of "[]" k] k by simp
    have 5: "load_completed_keywords
            (save_completed_keyword k (save_completed_keyword k (saved_history ks)))
          = insert (py_strip k) (load_completed_keywords (saved_history ks))"
      by (simp add: load_save [OF ends_in_newline_save k] load_history_save [OF k])
    note 1 2 3 5
  }
  with empty show ?thesis by simp
qed

theorem save_twice_collapses_witness:
  "\<not> has_line_break ''plumbers near me''
   \<and> py_strip ''plumbers near me'' = ''plumbers near me''
   \<and> load_completed_keywords
        (save_completed_keyword ''plumbers near me''
           (save_completed_keyword ''plumbers near me'' None)) = {''plumbers near me''}
   \<and> load_completed_keywords
        (save_completed_keyword ''plumbers near me''
           (save_completed_keyword ''plumbers near me'' (saved_history [''electricians''])))
       = {''plumbers near me'', ''electricians''}"
proof -
  have h: "\<not> has_line_break ''plumbers near me''"
    by (simp add: has_line_break_def LF_def CR_def)
  have s: "py_strip ''plumbers near me'' = ''plumbers near me''"
    by (simp add: py_strip_def is_space_def)
  have l: "load_completed_keywords (saved_history [''electricians'']) = {''electricians''}"
    by (simp add: saved_history_def load_completed_keywords_def save_completed_keyword_def
        LF_def CR_def py_strip_def is_space_def)
  note t = save_twice_collapses [of "''plumbers near me''" "[''electricians'']"]
  note u = t [THEN conjunct1, THEN mp, OF h]
  note A = u [THEN conjunct2, THEN conjunct2, THEN conjunct1]
  note B = u [THEN conjunct2, THEN conjunct2, THEN conjunct2, THEN conjunct2]
  from h show ?thesis by (simp only: A B s l) simp
qed

text \<open>
  C9 as stated fails for a keyword that holds a line feed, which a sheet cell can: the
  two saved copies come back as the separate lines \<open>a\<close> and \<open>b\<close>, and the keyword is
  not in the loaded set.
\<close>

theorem save_twice_line_break_counterexample:
  "get_keywords_from_sheet [''Keywords'', ''a'' @ [LF] @ ''b''] = [''a'' @ [LF] @ ''b'']
   \<and> load_completed_keywords
        (save_completed_keyword (''a'' @ [LF] @ ''b'')
           (save_completed_keyword (''a'' @ [LF] @ ''b'') None)) = {''a'', ''b''}
   \<and> ''a'' @ [LF] @ ''b'' \<notin>
       load_completed_keywords
        (save_completed_keyword (''a'' @ [LF] @ ''b'')
           (save_completed_keyword (''a'' @ [LF] @ ''b'') None))"
  by (auto simp add: get_keywords_from_sheet_def load_completed_keywords_def
      save_completed_keyword_def LF_def CR_def py_strip_def is_space_def)

text \<open>
  C10. A keyword without outer white space and without a line break is in the loaded
  set after it is saved, whatever was saved before. A keyword without a line break,
  saved to a missing file, comes back as its trimmed text only. A keyword with outer
  white space or with a line break is in no loaded set at all, so the keyword loop
  does not skip it on the next run.
\<close>

theorem progress_round_trip:
  "(py_strip k = k \<and> \<not> has_line_break k \<longrightarrow>
      k \<in> load_completed_keywords (save_completed_keyword k (saved_history ks)))
   \<and> (\<not> has_line_break w \<longrightarrow>
      load_completed_keywords (save_completed_keyword w None) = {py_strip w})
   \<and> (py_strip w \<noteq> w \<or> has_line_break w \<longrightarrow>
      w \<notin> load_completed_keywords f
      \<and> main_loop cfg browser (load_completed_keywords f) ((i, w) # rest) st =
          (case process_keyword cfg w (browser i) st of
             None \<Rightarrow> None
           | Some st' \<Rightarrow> main_loop cfg browser (load_completed_keywords f) rest st'))"
proof -
  have 1: "py_strip k = k \<and> \<not> has_line_break k \<longrightarrow>
      k \<in> load_completed_keywords (save_completed_keyword k (saved_history ks))"
    using load_history_save [of k ks] by auto
  have 2: "\<not> has_line_break w \<longrightarrow>
      load_completed_keywords (save_completed_keyword w None) = {py_strip w}"
    using load_save [of None w] by (simp add: ends_in_newline_def load_completed_keywords_def)
  have 3: "py_strip w \<noteq> w \<or> has_line_break w \<longrightarrow> w \<notin> load_completed_keywords f"
    using loaded_clean [of w f] by blast
  from 1 2 3 show ?thesis by simp
qed

theorem progress_round_trip_witness:
  "py_strip ''plumbers near me'' = ''plumbers near me''
   \<and> \<not> has_line_break ''plumbers near me''
   \<and> ''plumbers near me'' \<in>
       load_completed_keywords
         (save_completed_keyword ''plumbers near me'' (saved_history [''electricians'']))
   \<and> \<not> has_line_break '' dentist ''
   \<and> py_strip '' dentist '' \<noteq> '' dentist ''
   \<and> load_completed_keywords (save_completed_keyword '' dentist '' None) = {''dentist''}
   \<and> '' dentist '' \<notin> load_completed_keywords (save_completed_keyword '' dentist '' None)"
proof -
  have a: "py_strip ''plumbers near me'' = ''plumbers near me''"
    by (simp add: py_strip_def is_space_def)
  have b: "\<not> has_line_break ''plumbers near me''"
    by (simp add: has_line_break_def LF_def CR_def)
  have c: "\<not> has_line_break '' dentist ''"
    by (simp add: has_line_break_def LF_def CR_def)
  have d: "py_strip '' dentist '' = ''dentist''"
    by (simp add: py_strip_def is_space_def)
  have e: "''dentist'' \<noteq> '' dentist ''" by simp
  note t = progress_round_trip
    [of "''plumbers near me''" "[''electricians'']" "'' dentist ''"
        "save_completed_keyword '' dentist '' None"]
  note A = t [THEN conjunct1, THEN mp, OF conjI, OF a b]
  note B = t [THEN conjunct2, THEN conjunct1, THEN mp, OF c]
  have "py_strip '' dentist '' \<noteq> '' dentist ''" by (simp only: d e not_False_eq_True)
  note C = t [THEN conjunct2, THEN conjunct2, THEN mp, OF disjI1, OF this, THEN conjunct1]
  from a b c A C e show ?thesis by (simp only: B d) simp
qed

section \<open>The matcher against the words of a pattern\<close>

lemma rep_cases:
  "t' \<in> set (rep stp m n t) \<longleftrightarrow>
     (n \<noteq> Some 0 \<and> (\<exists>x \<in> set (stp t). length (fst x) < length (fst t)
        \<and> t' \<in> set (rep stp (m - 1) (map_option (\<lambda>k. k - 1) n) x)))
     \<or> (m = 0 \<and> t' = t)"
  by (subst rep.simps) auto

lemma rep_sound:
  "\<forall>t t'. t' \<in> set (step t) \<longrightarrow> (\<exists>w \<in> L. fst t = w @ fst t') \<Longrightarrow>
   t' \<in> set (rep step m n t) \<Longrightarrow>
     \<exists>ws. set ws \<subseteq> L \<and> m \<le> length ws
          \<and> (case n of None \<Rightarrow> True | Some k \<Rightarrow> length ws \<le> k)
          \<and> fst t = concat ws @ fst t'"
proof (induction step m n t arbitrary: t' rule: rep.induct)
  case (1 stp m n t)
  note sound = "1.prems"(1)
  from "1.prems"(2) have
    "(n \<noteq> Some 0 \<and> (\<exists>x \<in> set (stp t). length (fst x) < length (fst t)
        \<and> t' \<in> set (rep stp (m - 1) (map_option (\<lambda>k. k - 1) n) x)))
     \<or> (m = 0 \<and> t' = t)"
    by (rule rep_cases [THEN iffD1])
  then show ?case
  proof
    assume "m = 0 \<and> t' = t"
    then have "set [] \<subseteq> L \<and> m \<le> length ([] :: string list)
        \<and> (case n of None \<Rightarrow> True | Some k \<Rightarrow> length ([] :: string list) \<le> k)
        \<and> fst t = concat [] @ fst t'"
      by (simp split: option.splits)
    then show ?thesis by blast
  next
    assume "n \<noteq> Some 0 \<and> (\<exists>x \<in> set (stp t). length (fst x) < length (fst t)
        \<and> t' \<in> set (rep stp (m - 1) (map_option (\<lambda>k. k - 1) n) x))"
    then obtain x where n: "n \<noteq> Some 0" and x: "x \<in> set (stp t)"
      and len: "length (fst x) < length (fst t)"
      and t': "t' \<in> set (rep stp (m - 1) (map_option (\<lambda>k. k - 1) n) x)"
      by blast
    from x len have xf: "x \<in> set (filter (\<lambda>t'. length (fst t') < length (fst t)) (stp t))"
      by simp
    from "1.IH" [OF n xf sound t'] obtain ws where ws: "set ws \<subseteq> L" "m - 1 \<le> length ws"
      "case map_option (\<lambda>k. k - 1) n of None \<Rightarrow> True | Some k \<Rightarrow> length ws \<le> k"
      "fst x = concat ws @ fst t'"
      by blast
    from sound x obtain w where w: "w \<in> L" "fst t = w @ fst x" by blast
    from ws w n have "set (w # ws) \<subseteq> L \<and> m \<le> length (w # ws)
        \<and> (case n of None \<Rightarrow> True | Some k \<Rightarrow> length (w # ws) \<le> k)
        \<and> fst t = concat (w # ws) @ fst t'"
      by (auto split: option.splits)
    then show ?thesis by blast
  qed
qed

lemma matches_sound:
  "t' \<in> set (matches r t) \<Longrightarrow> \<exists>w \<in> lang r. fst t = w @ fst t'"
proof (induction r arbitrary: t t')
  case (Sym p)
  show ?case
  proof (cases "fst t")
    case Nil
    with Sym show ?thesis by simp
  next
    case (Cons c cs)
    with Sym have "p c" "t' = (cs, snd t)" by (simp_all split: if_splits)
    with Cons have "[c] \<in> lang (Sym p)" "fst t = [c] @ fst t'" by simp_all
    then show ?thesis by blast
  qed
next
  case (Seq a b)
  from Seq.prems obtain x where x: "x \<in> set (matches a t)" "t' \<in> set (matches b x)"
    by auto
  from Seq.IH(1) [OF x(1)] obtain u where u: "u \<in> lang a" "fst t = u @ fst x" by blast
  from Seq.IH(2) [OF x(2)] obtain v where v: "v \<in> lang b" "fst x = v @ fst t'" by blast
  from u v have "u @ v \<in> lang (Seq a b)" "fst t = (u @ v) @ fst t'" by auto
  then show ?case by blast
next
  case (Alt a b)
  from Alt.prems have "t' \<in> set (matches a t) \<or> t' \<in> set (matches b t)" by simp
  then show ?case
  proof
    assume "t' \<in> set (matches a t)"
    from Alt.IH(1) [OF this] show ?thesis by auto
  next
    assume "t' \<in> set (matches b t)"
    from Alt.IH(2) [OF this] show ?thesis by auto
  qed
next
  case (Rep r m n)
  from Rep.IH have s: "\<forall>t t'. t' \<in> set (matches r t) \<longrightarrow> (\<exists>w \<in> lang r. fst t = w @ fst t')"
    by blast
  from Rep.prems have "t' \<in> set (rep (matches r) m n t)" by simp
  from rep_sound [OF s this] obtain ws where "set ws \<subseteq> lang r" "m \<le> length ws"
    "case n of None \<Rightarrow> True | Some k \<Rightarrow> length ws \<le> k" "fst t = concat ws @ fst t'"
    by blast
  then have "concat ws \<in> lang (Rep r m n)" "fst t = concat ws @ fst t'" by auto
  then show ?case by blast
next
  case (Group i r)
  from Group.prems obtain x where "x \<in> set (matches r t)" "fst t' = fst x" by auto
  with Group.IH [of x t] show ?case by auto
qed


lemma concat_singletons:
  "set ws \<subseteq> {[c] | c. p c} \<Longrightarrow> length (concat ws) = length ws \<and> (\<forall>c \<in> set (concat ws). p c)"
  by (induction ws) auto

lemma concat_map_singleton: "concat (map (\<lambda>c. [c]) w) = w"
  by (induction w) auto

lemma lang_Rep_Sym:
  "w \<in> lang (Rep (Sym p) m n) \<longleftrightarrow>
     (\<forall>c \<in> set w. p c) \<and> m \<le> length w \<and> (case n of None \<Rightarrow> True | Some k \<Rightarrow> length w \<le> k)"
proof
  assume "w \<in> lang (Rep (Sym p) m n)"
  then obtain ws where ws: "w = concat ws" "set ws \<subseteq> {[c] | c. p c}" "m \<le> length ws"
    "case n of None \<Rightarrow> True | Some k \<Rightarrow> length ws \<le> k"
    by auto
  from concat_singletons [OF ws(2)] ws show
    "(\<forall>c \<in> set w. p c) \<and> m \<le> length w \<and> (case n of None \<Rightarrow> True | Some k \<Rightarrow> length w \<le> k)"
    by (simp split: option.splits)
next
  assume a: "(\<forall>c \<in> set w. p c) \<and> m \<le> length w
      \<and> (case n of None \<Rightarrow> True | Some k \<Rightarrow> length w \<le> k)"
  let ?ws = "map (\<lambda>c. [c]) w"
  from a have "w = concat ?ws \<and> set ?ws \<subseteq> lang (Sym p) \<and> m \<le> length ?ws
      \<and> (case n of None \<Rightarrow> True | Some k \<Rightarrow> length ?ws \<le> k)"
    by (auto simp: concat_map_singleton split: option.splits)
  then show "w \<in> lang (Rep (Sym p) m n)"
    unfolding lang.simps by blast
qed

lemma search_sound:
  "re_search r s = Some m \<Longrightarrow>
   \<exists>pre rest t' ts. s = pre @ rest \<and> matches r (rest, Map.empty) = t' # ts
      \<and> m = \<lparr>group0 = take (length rest - length (fst t')) rest, groups = snd t'\<rparr>"
proof (induction s)
  case Nil
  then show ?case
    by (subst (asm) re_search.simps) (auto split: list.splits)
next
  case (Cons c cs)
  show ?case
  proof (cases "matches r (c # cs, Map.empty)")
    case Nil
    with Cons.prems have "re_search r cs = Some m"
      by (subst (asm) re_search.simps) simp
    from Cons.IH [OF this] obtain pre rest t' ts where
      "cs = pre @ rest" "matches r (rest, Map.empty) = t' # ts"
      "m = \<lparr>group0 = take (length rest - length (fst t')) rest, groups = snd t'\<rparr>"
      by blast
    then have "c # cs = (c # pre) @ rest \<and> matches r (rest, Map.empty) = t' # ts
      \<and> m = \<lparr>group0 = take (length rest - length (fst t')) rest, groups = snd t'\<rparr>"
      by simp
    then show ?thesis by blast
  next
    case (Cons t' ts)
    with Cons.prems have
      "m = \<lparr>group0 = take (length (c # cs) - length (fst t')) (c # cs), groups = snd t'\<rparr>"
      by (subst (asm) re_search.simps) simp
    with Cons have "c # cs = [] @ (c # cs) \<and> matches r (c # cs, Map.empty) = t' # ts
      \<and> m = \<lparr>group0 = take (length (c # cs) - length (fst t')) (c # cs), groups = snd t'\<rparr>"
      by simp
    then show ?thesis by blast
  qed
qed

lemma search_in_lang:
  assumes "re_search r s = Some m"
  shows "group0 m \<in> lang r \<and> (\<exists>pre post. s = pre @ group0 m @ post)"
proof -
  from search_sound [OF assms] obtain pre rest t' ts where
    s: "s = pre @ rest" and t: "matches r (rest, Map.empty) = t' # ts"
    and m: "m = \<lparr>group0 = take (length rest - length (fst t')) rest, groups = snd t'\<rparr>"
    by blast
  from t have "t' \<in> set (matches r (rest, Map.empty))" by simp
  from matches_sound [OF this] obtain w where w: "w \<in> lang r" "rest = w @ fst t'" by auto
  from w(2) have "take (length rest - length (fst t')) rest = w"
    by (metis add_diff_cancel_right' append_eq_conv_conj length_append)
  with m w s have "group0 m = w" "s = pre @ group0 m @ fst t'" by simp_all
  with w show ?thesis by blast
qed


lemma rep_keeps_group:
  "\<forall>t t'. t' \<in> set (step t) \<longrightarrow> snd t' i = snd t i \<Longrightarrow>
   t' \<in> set (rep step m n t) \<Longrightarrow> snd t' i = snd t i"
proof (induction step m n t arbitrary: t' rule: rep.induct)
  case (1 stp m n t)
  note keep = "1.prems"(1)
  from "1.prems"(2) have
    "(n \<noteq> Some 0 \<and> (\<exists>x \<in> set (stp t). length (fst x) < length (fst t)
        \<and> t' \<in> set (rep stp (m - 1) (map_option (\<lambda>k. k - 1) n) x)))
     \<or> (m = 0 \<and> t' = t)"
    by (rule rep_cases [THEN iffD1])
  then show ?case
  proof
    assume "m = 0 \<and> t' = t"
    then show ?thesis by simp
  next
    assume "n \<noteq> Some 0 \<and> (\<exists>x \<in> set (stp t). length (fst x) < length (fst t)
        \<and> t' \<in> set (rep stp (m - 1) (map_option (\<lambda>k. k - 1) n) x))"
    then obtain x where n: "n \<noteq> Some 0" and x: "x \<in> set (stp t)"
      and len: "length (fst x) < length (fst t)"
      and t': "t' \<in> set (rep stp (m - 1) (map_option (\<lambda>k. k - 1) n) x)"
      by blast
    from x len have xf: "x \<in> set (filter (\<lambda>t'. length (fst t') < length (fst t)) (stp t))"
      by simp
    from "1.IH" [OF n xf keep t'] have "snd t' i = snd x i" .
    also from keep x have "snd x i = snd t i" by blast
    finally show ?thesis .
  qed
qed

lemma matches_keeps_group:
  "i \<notin> group_ids r \<Longrightarrow> t' \<in> set (matches r t) \<Longrightarrow> snd t' i = snd t i"
proof (induction r arbitrary: t t')
  case (Sym p)
  then show ?case by (cases "fst t") (auto split: if_splits)
next
  case (Seq a b)
  from Seq.prems obtain x where x: "x \<in> set (matches a t)" "t' \<in> set (matches b x)"
    by auto
  from Seq.prems(1) have "i \<notin> group_ids a" "i \<notin> group_ids b" by simp_all
  with Seq.IH x have "snd x i = snd t i" "snd t' i = snd x i" by blast+
  then show ?case by simp
next
  case (Alt a b)
  from Alt.prems have "t' \<in> set (matches a t) \<or> t' \<in> set (matches b t)"
    "i \<notin> group_ids a" "i \<notin> group_ids b" by simp_all
  with Alt.IH show ?case by blast
next
  case (Rep r m n)
  from Rep.prems(1) Rep.IH have
    "\<forall>t t'. t' \<in> set (matches r t) \<longrightarrow> snd t' i = snd t i" by simp
  moreover from Rep.prems have "t' \<in> set (rep (matches r) m n t)" by simp
  ultimately show ?case by (rule rep_keeps_group)
next
  case (Group j r)
  from Group.prems obtain x where x: "x \<in> set (matches r t)"
    "snd t' = (snd x)(j \<mapsto> take (length (fst t) - length (fst x)) (fst t))" by auto
  from Group.prems(1) have "i \<noteq> j" "i \<notin> group_ids r" by simp_all
  with Group.IH x show ?case by simp
qed

lemma matches_Group_capture:
  assumes "t' \<in> set (matches (Group i r) t)"
  shows "\<exists>w \<in> lang r. fst t = w @ fst t' \<and> snd t' i = Some w"
proof -
  from assms obtain x where x: "x \<in> set (matches r t)" "fst t' = fst x"
    "snd t' = (snd x)(i \<mapsto> take (length (fst t) - length (fst x)) (fst t))" by auto
  from matches_sound [OF x(1)] obtain w where w: "w \<in> lang r" "fst t = w @ fst x" by blast
  from w(2) have "take (length (fst t) - length (fst x)) (fst t) = w" by simp
  with x w show ?thesis by auto
qed

lemma lower_plus_self: "py_lower_char CHR ''+'' = CHR ''+''"
  by (simp add: py_lower_char_def)

lemma lower_plus: "py_lower_char x = py_lower_char CHR ''+'' \<longleftrightarrow> x = CHR ''+''"
proof
  assume a: "py_lower_char x = py_lower_char CHR ''+''"
  define n where "n = (of_char x :: nat)"
  have eq: "py_lower_char x =
      (if (65 \<le> n \<and> n \<le> 90) \<or> (192 \<le> n \<and> n \<le> 222 \<and> n \<noteq> 215)
       then char_of (n + 32) else x)"
    by (simp only: py_lower_char_def Let_def n_def)
  show "x = CHR ''+''"
  proof (cases "(65 \<le> n \<and> n \<le> 90) \<or> (192 \<le> n \<and> n \<le> 222 \<and> n \<noteq> 215)")
    case True
    with a eq have "char_of (n + 32) = CHR ''+''"
      by (simp only: lower_plus_self if_True)
    then have "(of_char (char_of (n + 32)) :: nat) = of_char CHR ''+''" by (simp only:)
    then have "(n + 32) mod 256 = 43" by simp
    with True show ?thesis by auto
  next
    case False
    with a eq show ?thesis by (simp only: lower_plus_self if_False)
  qed
next
  assume "x = CHR ''+''"
  then show "py_lower_char x = py_lower_char CHR ''+''" by simp
qed

section \<open>Properties of the Listing Parser\<close>

lemma lang_digit_rep:
  "w \<in> lang (Rep digit m n) \<longleftrightarrow>
     (\<forall>c \<in> set w. is_digit c) \<and> m \<le> length w \<and> (case n of None \<Rightarrow> True | Some k \<Rightarrow> length w \<le> k)"
  unfolding digit_def by (rule lang_Rep_Sym)

lemma lang_rating: "w \<in> lang rating_pattern \<Longrightarrow> \<exists>a b. is_digit a \<and> is_digit b \<and> w = [a, CHR ''.'', b]"
  by (auto simp: rating_pattern_def digit_def lit_def)

lemma first_thread:
  "matches r t = t' # ts \<Longrightarrow> t' \<in> set (matches r t)"
  by simp

lemma rating_search:
  assumes "re_search rating_pattern s = Some m"
  shows "\<exists>a b. is_digit a \<and> is_digit b \<and> groups m 1 = Some [a, CHR ''.'', b]"
proof -
  from search_sound [OF assms] obtain rest t' ts where
    t: "matches rating_pattern (rest, Map.empty) = t' # ts" and m: "groups m = snd t'"
    by auto
  from first_thread [OF t] have "t' \<in> set (matches (Group 1 (Seq digit (Seq (lit CHR ''.'') digit))) (rest, Map.empty))"
    by (simp only: rating_pattern_def)
  from matches_Group_capture [OF this] obtain w where
    "w \<in> lang (Seq digit (Seq (lit CHR ''.'') digit))" "snd t' 1 = Some w" by blast
  with lang_rating [of w] m show ?thesis by (simp add: rating_pattern_def)
qed

lemma rating_stmt_total:
  "\<exists>v. rating_stmt p d = (None, d\<lparr>Rating := v\<rparr>)
     \<and> v = (case re_search rating_pattern p of
               None \<Rightarrow> Rating d
             | Some m \<Rightarrow> (case groups m 1 of None \<Rightarrow> None
                   | Some g \<Rightarrow> (case py_float g of Inl _ \<Rightarrow> None | Inr v \<Rightarrow> Some v)))"
proof (cases "re_search rating_pattern p")
  case None
  then show ?thesis by (simp add: rating_stmt_def assign_def)
next
  case (Some m)
  from rating_search [OF Some] obtain a b where "is_digit a" "is_digit b" "groups m 1 = Some [a, CHR ''.'', b]"
    by blast
  with Some show ?thesis by (simp add: rating_stmt_def assign_def py_float_def)
qed


lemma not_digit_comma: "\<not> is_digit CHR '',''"
  by (simp add: is_digit_def)

lemma lang_comma_groups:
  "set ws \<subseteq> lang (Group 2 (Seq (lit CHR '','') (Rep digit 3 (Some 3)))) \<Longrightarrow>
   \<forall>c \<in> set (concat ws). is_digit c \<or> c = CHR '',''"
proof (induction ws)
  case Nil
  show ?case by simp
next
  case (Cons x ws)
  from Cons.prems have "x \<in> lang (Seq (lit CHR '','') (Rep digit 3 (Some 3)))" by simp
  then obtain u v where "x = u @ v" "u \<in> lang (lit CHR '','')" "v \<in> lang (Rep digit 3 (Some 3))"
    unfolding lang.simps(2) by blast
  then have "\<forall>c \<in> set x. is_digit c \<or> c = CHR '',''"
    by (auto simp: lit_def lang_digit_rep simp del: lang.simps(4))
  with Cons show ?case by auto
qed

lemma lang_count:
  assumes "w \<in> lang count_pattern"
  shows "(\<forall>c \<in> set w. is_digit c \<or> c = CHR '','') \<and> (\<exists>c \<in> set w. is_digit c)"
proof -
  from assms have "w \<in> lang (Seq (Rep digit 1 (Some 3))
              (Rep (Group 2 (Seq (lit CHR '','') (Rep digit 3 (Some 3)))) 0 None))
      \<or> w \<in> lang (Rep digit 1 None)"
    by (simp add: count_pattern_def)
  then show ?thesis
  proof
    assume "w \<in> lang (Rep digit 1 None)"
    then have "(\<forall>c \<in> set w. is_digit c) \<and> 1 \<le> length w"
      by (simp only: lang_digit_rep) simp
    then show ?thesis by (cases w) auto
  next
    assume "w \<in> lang (Seq (Rep digit 1 (Some 3))
              (Rep (Group 2 (Seq (lit CHR '','') (Rep digit 3 (Some 3)))) 0 None))"
    then obtain u v where w0: "w = u @ v" and u: "u \<in> lang (Rep digit 1 (Some 3))"
      and v: "v \<in> lang (Rep (Group 2 (Seq (lit CHR '','') (Rep digit 3 (Some 3)))) 0 None)"
      unfolding lang.simps(2) by blast
    from v obtain ws where v': "v = concat ws"
      and ws: "set ws \<subseteq> lang (Group 2 (Seq (lit CHR '','') (Rep digit 3 (Some 3))))"
      unfolding lang.simps(4) by blast
    from w0 v' have w: "w = u @ concat ws" by simp
    from u have u': "(\<forall>c \<in> set u. is_digit c) \<and> 1 \<le> length u"
      by (simp only: lang_digit_rep) simp
    then obtain c where "c \<in> set u" by (cases u) auto
    with u' lang_comma_groups [OF ws] w show ?thesis by auto
  qed
qed

lemma matches_SeqD:
  "t' \<in> set (matches (Seq a b) t) \<Longrightarrow> \<exists>x \<in> set (matches a t). t' \<in> set (matches b x)"
  by auto

lemma reviews_search:
  assumes "re_search reviews_pattern s = Some m"
  shows "\<exists>g. groups m 1 = Some g \<and> g \<in> lang count_pattern"
proof -
  from search_sound [OF assms] obtain rest t' ts where
    t: "matches reviews_pattern (rest, Map.empty) = t' # ts" and m: "groups m = snd t'"
    by auto
  from first_thread [OF t] have
    "t' \<in> set (matches (Seq (lit CHR ''('') (Seq (Group 1 count_pattern) (lit CHR '')'')))
                       (rest, Map.empty))"
    by (simp only: reviews_pattern_def count_pattern_def)
  from matches_SeqD [OF this] obtain t1 where
    "t' \<in> set (matches (Seq (Group 1 count_pattern) (lit CHR '')'')) t1)" by blast
  from matches_SeqD [OF this] obtain t2 where
    t2: "t2 \<in> set (matches (Group 1 count_pattern) t1)" and t3: "t' \<in> set (matches (lit CHR '')'') t2)"
    by blast
  have "1 \<notin> group_ids (lit CHR '')'')" by (simp add: lit_def)
  from matches_keeps_group [OF this t3] have "snd t' 1 = snd t2 1" .
  with matches_Group_capture [OF t2] m show ?thesis by auto
qed

lemma py_int_digits:
  "s \<noteq> [] \<Longrightarrow> \<forall>c \<in> set s. is_digit c \<Longrightarrow>
   py_int s = (if length s \<le> int_max_str_digits
               then Inr (foldl (\<lambda>acc c. 10 * acc + int (digit_value c)) 0 s)
               else Inl ValueError)"
  by (simp add: py_int_def)

lemma reviews_count_int:
  assumes "re_search reviews_pattern p = Some m"
  shows "\<exists>g. groups m 1 = Some g
     \<and> py_int (filter (\<lambda>c. c \<noteq> CHR '','') g) =
         (if length (filter (\<lambda>c. c \<noteq> CHR '','') g) \<le> int_max_str_digits
          then Inr (foldl (\<lambda>acc c. 10 * acc + int (digit_value c)) 0
                      (filter (\<lambda>c. c \<noteq> CHR '','') g))
          else Inl ValueError)"
proof -
  from reviews_search [OF assms] obtain g where g: "groups m 1 = Some g" "g \<in> lang count_pattern"
    by blast
  from lang_count [OF g(2)] obtain c where all: "\<forall>c \<in> set g. is_digit c \<or> c = CHR '',''"
    and c: "c \<in> set g" "is_digit c" by blast
  from c not_digit_comma have "c \<noteq> CHR '',''" by blast
  with c have "c \<in> set (filter (\<lambda>c. c \<noteq> CHR '','') g)" by simp
  then have ne: "filter (\<lambda>c. c \<noteq> CHR '','') g \<noteq> []" by (metis empty_iff empty_set)
  from all have dg: "\<forall>c \<in> set (filter (\<lambda>c. c \<noteq> CHR '','') g). is_digit c" by auto
  from py_int_digits [OF ne dg] g(1) show ?thesis by blast
qed

lemma reviews_stmt_total:
  "reviews_stmt p d =
     (if count_refused p then (Some ValueError, d)
      else (None, d\<lparr>Number_of_Reviews :=
              (case re_search reviews_pattern p of
                 None \<Rightarrow> Number_of_Reviews d
               | Some m \<Rightarrow> (case groups m 1 of None \<Rightarrow> None
                     | Some g \<Rightarrow> (case py_int (filter (\<lambda>c. c \<noteq> CHR '','') g) of
                                    Inl _ \<Rightarrow> None | Inr v \<Rightarrow> Some v)))\<rparr>))"
proof (cases "re_search reviews_pattern p")
  case None
  then show ?thesis by (simp add: reviews_stmt_def assign_def count_refused_def)
next
  case (Some m)
  from reviews_count_int [OF Some] obtain g where g: "groups m 1 = Some g"
    and i: "py_int (filter (\<lambda>c. c \<noteq> CHR '','') g) =
         (if length (filter (\<lambda>c. c \<noteq> CHR '','') g) \<le> int_max_str_digits
          then Inr (foldl (\<lambda>acc c. 10 * acc + int (digit_value c)) 0
                      (filter (\<lambda>c. c \<noteq> CHR '','') g))
          else Inl ValueError)"
    by blast
  show ?thesis
  proof (cases "length (filter (\<lambda>c. c \<noteq> CHR '','') g) \<le> int_max_str_digits")
    case True
    with Some g i show ?thesis
      by (simp add: reviews_stmt_def assign_def count_refused_def)
  next
    case False
    with Some g i show ?thesis
      by (simp add: reviews_stmt_def raise_def count_refused_def)
  qed
qed

lemma refused_no_count:
  assumes "rating_span e = Some line" "count_refused (takeWhile (\<lambda>c. c \<noteq> middle_dot) line)"
  shows "rule_reviews e = None"
proof -
  let ?p = "takeWhile (\<lambda>c. c \<noteq> middle_dot) line"
  from assms(2) obtain m where m: "re_search reviews_pattern ?p = Some m"
    by (auto simp: count_refused_def split: option.splits)
  from reviews_count_int [OF m] obtain g where g: "groups m 1 = Some g"
    and i: "py_int (filter (\<lambda>c. c \<noteq> CHR '','') g) =
         (if length (filter (\<lambda>c. c \<noteq> CHR '','') g) \<le> int_max_str_digits
          then Inr (foldl (\<lambda>acc c. 10 * acc + int (digit_value c)) 0
                      (filter (\<lambda>c. c \<noteq> CHR '','') g))
          else Inl ValueError)"
    by blast
  from assms(2) m g have "\<not> length (filter (\<lambda>c. c \<noteq> CHR '','') g) \<le> int_max_str_digits"
    by (simp add: count_refused_def)
  with assms(1) m g i show ?thesis by (simp add: rule_reviews_def)
qed


lemma py_split_shape:
  "py_split sep s =
     takeWhile (\<lambda>c. c \<noteq> sep) s
     # (if sep \<in> set s then py_split sep (drop 1 (dropWhile (\<lambda>c. c \<noteq> sep) s)) else [])"
  by (induction s) auto

lemma py_split_second:
  "sep \<in> set s \<Longrightarrow>
   \<exists>more. py_split sep s =
      takeWhile (\<lambda>c. c \<noteq> sep) s
      # takeWhile (\<lambda>c. c \<noteq> sep) (drop 1 (dropWhile (\<lambda>c. c \<noteq> sep) s)) # more"
  using py_split_shape [of sep s]
        py_split_shape [of sep "drop 1 (dropWhile (\<lambda>c. c \<noteq> sep) s)"]
  by simp

lemma rating_block_result:
  assumes "Rating d = None" "Number_of_Reviews d = None" "Category d = None"
  shows "rating_block e d =
     (case rating_span e of
        None \<Rightarrow> Some NoSuchElementException
      | Some line \<Rightarrow>
          if count_refused (takeWhile (\<lambda>c. c \<noteq> middle_dot) line) then Some ValueError else None,
      d\<lparr>Rating := rule_rating e, Number_of_Reviews := rule_reviews e,
        Category := rule_category e\<rparr>)"
proof (cases "rating_span e")
  case None
  with assms show ?thesis
    by (simp add: rating_block_def raise_def rule_rating_def rule_reviews_def rule_category_def)
next
  case (Some line)
  let ?p0 = "takeWhile (\<lambda>c. c \<noteq> middle_dot) line"
  from rating_stmt_total [of ?p0 d] assms(1) Some
  have 1: "rating_stmt ?p0 d = (None, d\<lparr>Rating := rule_rating e\<rparr>)"
    by (auto simp: rule_rating_def split: option.splits)
  obtain others where sp: "py_split middle_dot line = ?p0 # others"
    using py_split_shape [of middle_dot line] by blast
  show ?thesis
  proof (cases "count_refused ?p0")
    case refused: True
    from reviews_stmt_total [of ?p0 "d\<lparr>Rating := rule_rating e\<rparr>"] refused
    have 2: "reviews_stmt ?p0 (d\<lparr>Rating := rule_rating e\<rparr>) =
        (Some ValueError, d\<lparr>Rating := rule_rating e\<rparr>)"
      by simp
    from refused_no_count [OF Some refused] have r: "rule_reviews e = None" .
    from Some refused have c: "rule_category e = None" by (simp add: rule_category_def)
    from assms(2,3) have "d\<lparr>Rating := rule_rating e, Number_of_Reviews := None, Category := None\<rparr>
        = d\<lparr>Rating := rule_rating e\<rparr>"
      by simp
    with Some sp 1 2 refused r c show ?thesis
      by (simp add: rating_block_def and_then_def)
  next
    case accepted: False
    from reviews_stmt_total [of ?p0 "d\<lparr>Rating := rule_rating e\<rparr>"] assms(2) Some accepted
    have 2: "reviews_stmt ?p0 (d\<lparr>Rating := rule_rating e\<rparr>) =
        (None, d\<lparr>Rating := rule_rating e, Number_of_Reviews := rule_reviews e\<rparr>)"
      by (auto simp: rule_reviews_def split: option.splits)
    show ?thesis
    proof (cases "middle_dot \<in> set line")
      case True
      from py_split_second [OF True] obtain more where
        "py_split middle_dot line = ?p0
          # takeWhile (\<lambda>c. c \<noteq> middle_dot) (drop 1 (dropWhile (\<lambda>c. c \<noteq> middle_dot) line)) # more"
        by blast
      with Some True 1 2 accepted show ?thesis
        by (simp add: rating_block_def and_then_def assign_def rule_category_def)
    next
      case False
      with py_split_shape [of middle_dot line] have "py_split middle_dot line = [?p0]" by simp
      with Some False 1 2 assms(3) accepted show ?thesis
        by (simp add: rating_block_def and_then_def assign_def rule_category_def)
    qed
  qed
qed


lemma lang_phone: "w \<in> lang phone_pattern \<longleftrightarrow> grouped_digit_token w"
proof -
  have 1: "w \<in> lang (Seq (Rep digit 5 (Some 5)) (Seq space (Rep digit 5 (Some 5)))) \<longleftrightarrow>
      (\<exists>a s b. w = a @ [s] @ b \<and> length a = 5 \<and> length b = 5 \<and> is_space s
               \<and> (\<forall>c \<in> set a. is_digit c) \<and> (\<forall>c \<in> set b. is_digit c))"
    (is "?L \<longleftrightarrow> ?R")
  proof
    assume ?L
    then obtain a v where a: "w = a @ v" "a \<in> lang (Rep digit 5 (Some 5))"
      "v \<in> lang (Seq space (Rep digit 5 (Some 5)))"
      unfolding lang.simps(2) by blast
    from a(3) obtain x b where b: "v = x @ b" "x \<in> lang space" "b \<in> lang (Rep digit 5 (Some 5))"
      unfolding lang.simps(2) by blast
    from b(2) obtain s where s: "x = [s]" "is_space s" by (auto simp: space_def)
    from a(2) b(3) have "length a = 5 \<and> length b = 5
        \<and> (\<forall>c \<in> set a. is_digit c) \<and> (\<forall>c \<in> set b. is_digit c)"
      by (simp only: lang_digit_rep) simp
    with a(1) b(1) s show ?R by blast
  next
    assume ?R
    then obtain a s b where r: "w = a @ [s] @ b" "length a = 5" "length b = 5" "is_space s"
      "\<forall>c \<in> set a. is_digit c" "\<forall>c \<in> set b. is_digit c"
      by blast
    then have "a \<in> lang (Rep digit 5 (Some 5))" "b \<in> lang (Rep digit 5 (Some 5))"
      "[s] \<in> lang space"
      by (simp_all add: lang_digit_rep space_def del: lang.simps(4))
    then have "[s] @ b \<in> lang (Seq space (Rep digit 5 (Some 5)))"
      unfolding lang.simps(2) by blast
    with \<open>a \<in> lang (Rep digit 5 (Some 5))\<close> have
      "a @ [s] @ b \<in> lang (Seq (Rep digit 5 (Some 5)) (Seq space (Rep digit 5 (Some 5))))"
      unfolding lang.simps(2) by blast
    with r(1) show ?L by simp
  qed
  have 2: "w \<in> lang (Rep digit 10 (Some 10)) \<longleftrightarrow> length w = 10 \<and> (\<forall>c \<in> set w. is_digit c)"
    by (simp only: lang_digit_rep) auto
  have 3: "w \<in> lang (Rep (Sym (\<lambda>c. is_digit c \<or> is_space c)) 8 None) \<longleftrightarrow>
      8 \<le> length w \<and> (\<forall>c \<in> set w. is_digit c \<or> is_space c)"
    by (simp only: lang_Rep_Sym) auto
  show ?thesis
    by (simp only: phone_pattern_def lang.simps(3) lang.simps(5) Un_iff 1 2 3 grouped_digit_token_def)
qed

lemma digit_not_space: "is_digit c \<Longrightarrow> \<not> is_space c"
  by (auto simp: is_digit_def is_space_def)

lemma token_chars: "grouped_digit_token w \<Longrightarrow> 8 \<le> length w \<and> (\<forall>c \<in> set w. is_digit c \<or> is_space c)"
  by (auto simp: grouped_digit_token_def)

lemma py_strip_no_space: "\<forall>c \<in> set s. \<not> is_space c \<Longrightarrow> py_strip s = s"
proof (cases s)
  case Nil
  then show ?thesis by (simp add: py_strip_def)
next
  case (Cons x xs)
  assume a: "\<forall>c \<in> set s. \<not> is_space c"
  with Cons have 1: "dropWhile is_space s = s" by simp
  from a Cons have "rev s \<noteq> [] \<and> \<not> is_space (hd (rev s))"
    by (metis hd_in_set rev_is_Nil_conv set_rev list.distinct(1))
  then have 2: "dropWhile is_space (rev s) = rev s" by (cases "rev s") auto
  show ?thesis by (simp only: py_strip_def 1 2 rev_rev_ident)
qed

lemma digits_only_form:
  assumes "\<forall>c \<in> set g. is_digit c \<or> is_space c"
  shows "py_strip (remove_whitespace g) = filter is_digit g"
proof -
  from assms have "remove_whitespace g = filter is_digit g"
    unfolding remove_whitespace_def by (induction g) (auto dest: digit_not_space)
  moreover have "py_strip (filter is_digit g) = filter is_digit g"
    by (rule py_strip_no_space) (auto dest: digit_not_space)
  ultimately show ?thesis by simp
qed

lemma phone_stmt_result:
  assumes "Phone_Number d = None"
  shows "phone_stmt (full_text_of (child_divs e)) d = (None, d\<lparr>Phone_Number := rule_phone e\<rparr>)"
proof (cases "re_search phone_pattern (full_text_of (child_divs e))")
  case None
  with assms show ?thesis by (simp add: phone_stmt_def rule_phone_def assign_def)
next
  case (Some m)
  from search_in_lang [OF Some] have "grouped_digit_token (group0 m)" by (simp add: lang_phone)
  from token_chars [OF this] have "py_strip (remove_whitespace (group0 m)) = filter is_digit (group0 m)"
    by (simp add: digits_only_form)
  with Some assms show ?thesis by (simp add: phone_stmt_def rule_phone_def assign_def)
qed

lemma years_stmt_result:
  assumes "Years_in_Business d = None"
  shows "years_stmt (full_text_of (child_divs e)) d = (None, d\<lparr>Years_in_Business := rule_years e\<rparr>)"
  using assms by (simp add: years_stmt_def rule_years_def assign_def split: option.splits)

lemma address_loop_result:
  "address_loop ds d =
     d\<lparr>Address := (case find (\<lambda>text. \<not> address_skipped (Phone_Number d) text \<and> 15 < length text)
                            (map py_strip ds) of
                      None \<Rightarrow> Address d | Some t \<Rightarrow> Some t)\<rparr>"
  by (induction ds) (auto simp: address_skipped_def Let_def)


lemma details_block_result:
  assumes "Years_in_Business d = None" "Phone_Number d = None" "Address d = None"
  shows "details_block e d =
     (None, d\<lparr>Years_in_Business := rule_years e, Phone_Number := rule_phone e,
             Address := rule_address e\<rparr>)"
proof -
  let ?txt = "full_text_of (child_divs e)"
  from years_stmt_result [OF assms(1)]
  have 1: "years_stmt ?txt d = (None, d\<lparr>Years_in_Business := rule_years e\<rparr>)" .
  from assms(2) have "Phone_Number (d\<lparr>Years_in_Business := rule_years e\<rparr>) = None" by simp
  from phone_stmt_result [OF this]
  have 2: "phone_stmt ?txt (d\<lparr>Years_in_Business := rule_years e\<rparr>) =
      (None, d\<lparr>Years_in_Business := rule_years e, Phone_Number := rule_phone e\<rparr>)" .
  have 3: "address_loop (child_divs e)
        (d\<lparr>Years_in_Business := rule_years e, Phone_Number := rule_phone e\<rparr>) =
      d\<lparr>Years_in_Business := rule_years e, Phone_Number := rule_phone e,
        Address := rule_address e\<rparr>"
  proof (cases "rule_address e")
    case None
    with assms(3) show ?thesis by (simp add: address_loop_result rule_address_def)
  next
    case (Some t)
    then show ?thesis by (simp add: address_loop_result rule_address_def)
  qed
  show ?thesis
    by (simp add: details_block_def Let_def and_then_def 1 2 3 assign_def)
qed



lemma name_block_result:
  "name_block e d =
     (if name_span e = None then Some NoSuchElementException else None,
      d\<lparr>Name := (case name_span e of None \<Rightarrow> Name d | Some t \<Rightarrow> Some t)\<rparr>)"
  by (simp add: name_block_def raise_def assign_def split: option.splits)

lemma parse_refines_rules: "parse_gmb_listing e keyword = parse_by_rules e keyword"
proof -
  let ?d1 = "(initial_data keyword)\<lparr>Name := name_span e\<rparr>"
  have 1: "try_except_pass (name_block e) (initial_data keyword) = ?d1"
    by (simp add: try_except_pass_def name_block_result initial_data_def split: option.splits)
  let ?d2 = "?d1\<lparr>Rating := rule_rating e, Number_of_Reviews := rule_reviews e,
        Category := rule_category e\<rparr>"
  have 2: "try_except_pass (rating_block e) ?d1 = ?d2"
    by (simp add: try_except_pass_def rating_block_result initial_data_def)
  have 3: "try_except_pass (details_block e) ?d2 =
      ?d2\<lparr>Years_in_Business := rule_years e, Phone_Number := rule_phone e,
          Address := rule_address e\<rparr>"
    by (simp add: try_except_pass_def details_block_result initial_data_def)
  show ?thesis
    by (simp only: parse_gmb_listing_def 1 2 3) (simp add: parse_by_rules_def initial_data_def)
qed

lemmas rx_eval = rating_pattern_def reviews_pattern_def years_pattern_def phone_pattern_def
  digit_def space_def lit_def lit_i_def is_digit_def is_space_def py_lower_char_def
  re_search.simps rep.simps











text \<open>
  C6. The rating line \<open>4.5 (1,234) \<cdot> Plumber\<close> gives the rating 4.5, the review count
  1234 and the category \<open>Plumber\<close>, whatever the rest of the fragment and the keyword
  are; the line splits at the separator into \<open>4.5 (1,234) \<close> and \<open> Plumber\<close>.
\<close>

theorem rating_line_example:
  "Rating (parse_gmb_listing
      \<lparr>name_span = n, rating_span = Some (''4.5 (1,234) '' @ [middle_dot] @ '' Plumber''),
       child_divs = ds\<rparr> keyword) = Some 4.5
   \<and> Number_of_Reviews (parse_gmb_listing
      \<lparr>name_span = n, rating_span = Some (''4.5 (1,234) '' @ [middle_dot] @ '' Plumber''),
       child_divs = ds\<rparr> keyword) = Some 1234
   \<and> Category (parse_gmb_listing
      \<lparr>name_span = n, rating_span = Some (''4.5 (1,234) '' @ [middle_dot] @ '' Plumber''),
       child_divs = ds\<rparr> keyword) = Some ''Plumber''
   \<and> py_split middle_dot (''4.5 (1,234) '' @ [middle_dot] @ '' Plumber'')
       = [''4.5 (1,234) '', '' Plumber'']"
proof -
  have 1: "rule_rating \<lparr>name_span = n, rating_span = Some (''4.5 (1,234) '' @ [middle_dot] @ '' Plumber''),
       child_divs = ds\<rparr> = Some 4.5"
    by (simp add: rule_rating_def middle_dot_def rx_eval py_float_def digit_value_def)
  have 2: "rule_reviews \<lparr>name_span = n, rating_span = Some (''4.5 (1,234) '' @ [middle_dot] @ '' Plumber''),
       child_divs = ds\<rparr> = Some 1234"
    by (simp add: rule_reviews_def middle_dot_def rx_eval py_int_def digit_value_def
        int_max_str_digits_def)
  have 3: "rule_category \<lparr>name_span = n, rating_span = Some (''4.5 (1,234) '' @ [middle_dot] @ '' Plumber''),
       child_divs = ds\<rparr> = Some ''Plumber''"
    by (simp add: rule_category_def count_refused_def middle_dot_def rx_eval int_max_str_digits_def
        py_strip_def)
  have 4: "py_split middle_dot (''4.5 (1,234) '' @ [middle_dot] @ '' Plumber'')
       = [''4.5 (1,234) '', '' Plumber'']"
    by (simp add: middle_dot_def)
  show ?thesis
    by (simp only: parse_refines_rules parse_by_rules_def gmb_data.simps 1 2 3 4 simp_thms)
qed




text \<open>
  C4 (as amended). When the phone pattern finds nothing in the concatenated child text,
  the phone number is absent. When it finds a match, the match is a grouped-digit token
  and a piece of that text, its digits-only form is what the plausibility filter
  measures, and the field holds the match with its outer white space trimmed when that
  form has at least eight characters, and is absent otherwise.
\<close>

theorem phone_rule_stores_trimmed_match:
  "(re_search phone_pattern (full_text_of (child_divs e0)) = None \<longrightarrow>
      Phone_Number (parse_gmb_listing e0 keyword0) = None)
   \<and> (re_search phone_pattern (full_text_of (child_divs e)) = Some m \<longrightarrow>
      grouped_digit_token (group0 m)
      \<and> (\<exists>pre post. full_text_of (child_divs e) = pre @ group0 m @ post)
      \<and> py_strip (remove_whitespace (group0 m)) = filter is_digit (group0 m)
      \<and> Phone_Number (parse_gmb_listing e keyword) =
          (if 8 \<le> length (filter is_digit (group0 m)) then Some (py_strip (group0 m)) else None))"
proof -
  have 1: "re_search phone_pattern (full_text_of (child_divs e0)) = None \<longrightarrow>
      Phone_Number (parse_gmb_listing e0 keyword0) = None"
    by (simp add: parse_refines_rules parse_by_rules_def rule_phone_def)
  {
    assume s: "re_search phone_pattern (full_text_of (child_divs e)) = Some m"
    from search_in_lang [OF s] have t: "grouped_digit_token (group0 m)"
      and sub: "\<exists>pre post. full_text_of (child_divs e) = pre @ group0 m @ post"
      by (simp_all add: lang_phone)
    from token_chars [OF t] have dg: "py_strip (remove_whitespace (group0 m)) = filter is_digit (group0 m)"
      by (simp add: digits_only_form)
    from s have "Phone_Number (parse_gmb_listing e keyword) =
          (if 8 \<le> length (filter is_digit (group0 m)) then Some (py_strip (group0 m)) else None)"
      by (simp add: parse_refines_rules parse_by_rules_def rule_phone_def)
    note t sub dg this
  }
  with 1 show ?thesis by blast
qed

text \<open>
  C4 as stated fails: for the child blocks \<open>Call\<close>, \<open>12345 67890\<close>, \<open>now\<close> the match is
  \<open> 12345 67890 \<close> with the blanks of the join on both sides, and the field holds
  \<open>12345 67890\<close>, not the matched text.
\<close>

theorem phone_original_match_counterexample:
  "full_text_of [''Call'', ''12345 67890'', ''now''] = ''Call 12345 67890 now''
   \<and> map_option group0 (re_search phone_pattern ''Call 12345 67890 now'') = Some '' 12345 67890 ''
   \<and> Phone_Number (parse_gmb_listing
        \<lparr>name_span = None, rating_span = None, child_divs = [''Call'', ''12345 67890'', ''now'']\<rparr>
        ''plumber'') = Some ''12345 67890''
   \<and> Phone_Number (parse_gmb_listing
        \<lparr>name_span = None, rating_span = None, child_divs = [''Call'', ''12345 67890'', ''now'']\<rparr>
        ''plumber'') \<noteq> Some '' 12345 67890 ''"
proof -
  have 1: "full_text_of [''Call'', ''12345 67890'', ''now''] = ''Call 12345 67890 now''"
    by (simp add: full_text_of_def)
  have 2: "re_search phone_pattern ''Call 12345 67890 now''
      = Some \<lparr>group0 = '' 12345 67890 '', groups = [1 \<mapsto> '' 12345 67890 '']\<rparr>"
    by (simp add: rx_eval)
  have 3: "Phone_Number (parse_gmb_listing
        \<lparr>name_span = None, rating_span = None, child_divs = [''Call'', ''12345 67890'', ''now'']\<rparr>
        ''plumber'') = Some ''12345 67890''"
    by (simp add: parse_refines_rules parse_by_rules_def rule_phone_def 1 2 py_strip_def
        is_space_def is_digit_def)
  show ?thesis by (simp only: 1 2 3) simp
qed



theorem phone_rule_stores_trimmed_match_witness:
  "re_search phone_pattern
      (full_text_of (child_divs \<lparr>name_span = None, rating_span = None,
                                 child_divs = [''no phone here'']\<rparr>)) = None
   \<and> Phone_Number (parse_gmb_listing
        \<lparr>name_span = None, rating_span = None, child_divs = [''no phone here'']\<rparr> ''k'') = None
   \<and> re_search phone_pattern
      (full_text_of (child_divs \<lparr>name_span = None, rating_span = None,
                                 child_divs = [''Call'', ''12345 67890'', ''now'']\<rparr>))
      = Some \<lparr>group0 = '' 12345 67890 '', groups = [1 \<mapsto> '' 12345 67890 '']\<rparr>
   \<and> grouped_digit_token '' 12345 67890 ''
   \<and> Phone_Number (parse_gmb_listing
        \<lparr>name_span = None, rating_span = None, child_divs = [''Call'', ''12345 67890'', ''now'']\<rparr>
        ''plumber'') = Some ''12345 67890''"
proof -
  have 1: "re_search phone_pattern
      (full_text_of (child_divs \<lparr>name_span = None, rating_span = None,
                                 child_divs = [''no phone here'']\<rparr>)) = None"
    by (simp add: full_text_of_def rx_eval)
  have 2: "re_search phone_pattern
      (full_text_of (child_divs \<lparr>name_span = None, rating_span = None,
                                 child_divs = [''Call'', ''12345 67890'', ''now'']\<rparr>))
      = Some \<lparr>group0 = '' 12345 67890 '', groups = [1 \<mapsto> '' 12345 67890 '']\<rparr>"
    by (simp add: full_text_of_def rx_eval)
  have 3: "filter is_digit '' 12345 67890 '' = ''1234567890''"
    by (simp add: is_digit_def)
  have 4: "py_strip '' 12345 67890 '' = ''12345 67890''"
    by (simp add: py_strip_def is_space_def)
  note t = phone_rule_stores_trimmed_match
    [of "\<lparr>name_span = None, rating_span = None, child_divs = [''no phone here'']\<rparr>" "''k''"
        "\<lparr>name_span = None, rating_span = None, child_divs = [''Call'', ''12345 67890'', ''now'']\<rparr>"
        "\<lparr>group0 = '' 12345 67890 '', groups = [1 \<mapsto> '' 12345 67890 '']\<rparr>" "''plumber''"]
  note A = t [THEN conjunct1, THEN mp, OF 1]
  note B = t [THEN conjunct2, THEN mp, OF 2]
  from B [THEN conjunct1] have C: "grouped_digit_token '' 12345 67890 ''"
    by (simp only: re_match.select_convs)
  from B [THEN conjunct2, THEN conjunct2, THEN conjunct2] have D: "Phone_Number (parse_gmb_listing
        \<lparr>name_span = None, rating_span = None, child_divs = [''Call'', ''12345 67890'', ''now'']\<rparr>
        ''plumber'') = Some ''12345 67890''"
    by (simp only: re_match.select_convs 3 4) simp
  from 1 A 2 C D show ?thesis by (intro conjI)
qed

lemma group_ids_word_i: "group_ids (word_i c ds) = {}"
  by (induction ds arbitrary: c) (simp_all add: lit_i_def)

lemma lang_years_group:
  assumes "w \<in> lang (Seq (Rep digit 1 None) (Rep (lit_i CHR ''+'') 0 (Some 1)))"
  shows "digits_plus_token w"
proof -
  from assms obtain ds p where w: "w = ds @ p" and ds: "ds \<in> lang (Rep digit 1 None)"
    and p: "p \<in> lang (Rep (lit_i CHR ''+'') 0 (Some 1))"
    unfolding lang.simps(2) by blast
  from ds have d: "(\<forall>c \<in> set ds. is_digit c) \<and> 1 \<le> length ds"
    by (simp only: lang_digit_rep) simp
  from p have "(\<forall>c \<in> set p. c = CHR ''+'') \<and> length p \<le> 1"
    by (simp only: lit_i_def lang_Rep_Sym lower_plus) simp
  then have "p = [] \<or> p = ''+''"
    by (cases p) auto
  moreover from d have "ds \<noteq> []" by auto
  ultimately have "w = ds @ p \<and> ds \<noteq> [] \<and> (\<forall>c \<in> set ds. is_digit c) \<and> (p = [] \<or> p = ''+'')"
    using d w by blast
  then show ?thesis unfolding digits_plus_token_def by blast
qed

lemma years_search:
  assumes "re_search years_pattern s = Some m"
  shows "\<exists>g. groups m 1 = Some g \<and> digits_plus_token g"
proof -
  let ?tail = "Seq (Rep (lit_i CHR ''+'') 0 (Some 1))
          (Seq (Rep space 1 None) (word_i CHR ''y'' ''ears in business''))"
  from search_sound [OF assms] obtain rest t' ts where
    t: "matches years_pattern (rest, Map.empty) = t' # ts" and m: "groups m = snd t'"
    by auto
  from first_thread [OF t] have
    "t' \<in> set (matches (Seq (Group 1 (Seq (Rep digit 1 None) (Rep (lit_i CHR ''+'') 0 (Some 1)))) ?tail)
                       (rest, Map.empty))"
    by (simp only: years_pattern_def)
  from matches_SeqD [OF this] obtain t1 where
    t1: "t1 \<in> set (matches (Group 1 (Seq (Rep digit 1 None) (Rep (lit_i CHR ''+'') 0 (Some 1))))
                      (rest, Map.empty))"
    and t2: "t' \<in> set (matches ?tail t1)"
    by blast
  have "1 \<notin> group_ids ?tail"
    by (simp add: group_ids_word_i lit_i_def space_def)
  from matches_keeps_group [OF this t2] have "snd t' 1 = snd t1 1" .
  moreover from matches_Group_capture [OF t1] obtain w where
    "w \<in> lang (Seq (Rep digit 1 None) (Rep (lit_i CHR ''+'') 0 (Some 1)))" "snd t1 1 = Some w"
    by blast
  ultimately have "groups m 1 = Some w \<and> digits_plus_token w"
    using m lang_years_group by simp
  then show ?thesis by blast
qed


lemma years_no_start:
  "\<not> is_digit c \<Longrightarrow> matches years_pattern (c # rest, g) = []"
  by (simp add: years_pattern_def digit_def rep.simps)

lemma years_search_skip:
  "\<forall>c \<in> set pre. \<not> is_digit c \<Longrightarrow>
   re_search years_pattern (pre @ s) = re_search years_pattern s"
proof (induction pre)
  case Nil
  show ?case by simp
next
  case (Cons c pre)
  then have "matches years_pattern (c # pre @ s, Map.empty) = []"
    by (simp add: years_no_start)
  then have "re_search years_pattern ((c # pre) @ s) = re_search years_pattern (pre @ s)"
    by (subst re_search.simps) simp
  with Cons show ?case by simp
qed

lemma years_12:
  "re_search years_pattern (''12 years in business'' @ post)
     = Some \<lparr>group0 = ''12 years in business'', groups = [1 \<mapsto> ''12'']\<rparr>"
  by (simp add: rx_eval)

lemma years_10_plus:
  "re_search years_pattern (''10+ years in business'' @ post)
     = Some \<lparr>group0 = ''10+ years in business'', groups = [1 \<mapsto> ''10+'']\<rparr>"
  by (simp add: rx_eval)


lemma py_join_Cons:
  "py_join sep (x # xs) = x @ (if xs = [] then [] else sep @ py_join sep xs)"
  by (cases xs) simp_all

lemma set_py_join: "set (py_join sep xs) \<subseteq> \<Union>(set ` set xs) \<union> set sep"
  by (induction xs) (auto simp: py_join_Cons split: if_splits)

lemma py_join_split:
  "\<exists>pre post. py_join sep (as @ x # bs) = pre @ x @ post
      \<and> set pre \<subseteq> \<Union>(set ` set as) \<union> set sep"
proof (induction as)
  case Nil
  have "py_join sep ([] @ x # bs) = [] @ x @ (if bs = [] then [] else sep @ py_join sep bs)
      \<and> set ([] :: string) \<subseteq> \<Union>(set ` set []) \<union> set sep"
    by (simp add: py_join_Cons)
  then show ?case by blast
next
  case (Cons a as)
  then obtain pre post where ih: "py_join sep (as @ x # bs) = pre @ x @ post"
    "set pre \<subseteq> \<Union>(set ` set as) \<union> set sep" by blast
  then have "py_join sep ((a # as) @ x # bs) = (a @ sep @ pre) @ x @ post
      \<and> set (a @ sep @ pre) \<subseteq> \<Union>(set ` set (a # as)) \<union> set sep"
    by (auto simp: py_join_Cons)
  then show ?case by blast
qed

lemma full_text_split:
  assumes "x \<noteq> []"
  shows "\<exists>pre post. full_text_of (before @ x # after) = pre @ x @ post
      \<and> set pre \<subseteq> \<Union>(set ` set before) \<union> {CHR '' ''}"
proof -
  from assms have "full_text_of (before @ x # after) =
      py_join '' '' (filter (\<lambda>t. t \<noteq> []) before @ x # filter (\<lambda>t. t \<noteq> []) after)"
    by (simp add: full_text_of_def)
  moreover from py_join_split [of "'' ''" "filter (\<lambda>t. t \<noteq> []) before" x
      "filter (\<lambda>t. t \<noteq> []) after"]
  obtain pre post where
    "py_join '' '' (filter (\<lambda>t. t \<noteq> []) before @ x # filter (\<lambda>t. t \<noteq> []) after) = pre @ x @ post"
    "set pre \<subseteq> \<Union>(set ` set (filter (\<lambda>t. t \<noteq> []) before)) \<union> set '' ''"
    by blast
  ultimately have "full_text_of (before @ x # after) = pre @ x @ post
      \<and> set pre \<subseteq> \<Union>(set ` set before) \<union> {CHR '' ''}"
    by auto
  then show ?thesis by blast
qed

lemma blank_not_digit: "\<not> is_digit CHR '' ''"
  by (simp add: is_digit_def)

lemma years_in_context:
  assumes "\<forall>b \<in> set before. \<forall>c \<in> set b. \<not> is_digit c"
    and "x \<noteq> []"
    and "\<And>post. re_search years_pattern (x @ post) = Some \<lparr>group0 = x, groups = [1 \<mapsto> y]\<rparr>"
  shows "rule_years \<lparr>name_span = n, rating_span = r, child_divs = before @ x # after\<rparr> = Some y"
proof -
  from full_text_split [OF assms(2)] obtain pre post where
    ft: "full_text_of (before @ x # after) = pre @ x @ post"
    and pre: "set pre \<subseteq> \<Union>(set ` set before) \<union> {CHR '' ''}"
    by blast
  from pre assms(1) blank_not_digit have "\<forall>c \<in> set pre. \<not> is_digit c" by auto
  from years_search_skip [OF this] assms(3)
  have "re_search years_pattern (pre @ x @ post) = Some \<lparr>group0 = x, groups = [1 \<mapsto> y]\<rparr>"
    by simp
  with ft show ?thesis by (simp add: rule_years_def)
qed

lemma lower_letters:
  "char_of (121::nat) = CHR ''y''"
  "char_of (101::nat) = CHR ''e''"
  "char_of (97::nat) = CHR ''a''"
  "char_of (114::nat) = CHR ''r''"
  "char_of (115::nat) = CHR ''s''"
  "char_of (105::nat) = CHR ''i''"
  "char_of (110::nat) = CHR ''n''"
  "char_of (98::nat) = CHR ''b''"
  "char_of (117::nat) = CHR ''u''"
  by code_simp+

lemma search_skip_no_match:
  "no_match_before r pre rest \<Longrightarrow> re_search r (pre @ rest) = re_search r rest"
proof (induction pre)
  case Nil
  show ?case by simp
next
  case (Cons c pre)
  then have "matches r (c # pre @ rest, Map.empty) = []" by simp
  then have "re_search r ((c # pre) @ rest) = re_search r (pre @ rest)"
    by (subst re_search.simps) simp
  with Cons show ?case by simp
qed

lemma no_digit_no_years_match:
  "\<forall>c \<in> set pre. \<not> is_digit c \<Longrightarrow> no_match_before years_pattern pre rest"
  by (induction pre) (simp_all add: years_no_start)

lemma years_after_no_match:
  assumes "full_text_of (child_divs e) = pre @ x @ post"
    and "no_match_before years_pattern pre (x @ post)"
    and "\<And>post. re_search years_pattern (x @ post) = Some \<lparr>group0 = x, groups = [1 \<mapsto> y]\<rparr>"
  shows "Years_in_Business (parse_gmb_listing e keyword) = Some y"
proof -
  from search_skip_no_match [OF assms(2)] assms(3)
  have "re_search years_pattern (pre @ x @ post) = Some \<lparr>group0 = x, groups = [1 \<mapsto> y]\<rparr>"
    by simp
  with assms(1) show ?thesis
    by (simp add: parse_refines_rules parse_by_rules_def rule_years_def)
qed

text \<open>
  C7 (as amended). The field is group 1 of the first match of the pattern in the child
  texts joined by blanks, empty ones left out; that group is always a run of digits
  with at most one plus sign after it. For a joined text that contains
  \<open>12 years in business\<close> the field is \<open>12\<close>, and for \<open>10+ years in business\<close> it is
  \<open>10+\<close>, when no match of the pattern starts before the phrase; that is so when no
  digit comes before the phrase, hence for the phrase alone and for a child block with
  that text after blocks without digits, whatever follows it, and it is so after
  \<open>Suite 100\<close>. Letter case does not matter, and a match may span two blocks.
\<close>

theorem years_in_business_capture:
  "(full_text_of (child_divs ea) = prea @ ''12 years in business'' @ posta
      \<and> no_match_before years_pattern prea (''12 years in business'' @ posta) \<longrightarrow>
      Years_in_Business (parse_gmb_listing ea keyword) = Some ''12'')
   \<and> (full_text_of (child_divs eb) = preb @ ''10+ years in business'' @ postb
      \<and> no_match_before years_pattern preb (''10+ years in business'' @ postb) \<longrightarrow>
      Years_in_Business (parse_gmb_listing eb keyword) = Some ''10+'')
   \<and> ((\<forall>c \<in> set pre. \<not> is_digit c) \<longrightarrow> no_match_before years_pattern pre rest)
   \<and> Years_in_Business (parse_gmb_listing
        \<lparr>name_span = n, rating_span = r, child_divs = [''12 years in business'']\<rparr> keyword)
       = Some ''12''
   \<and> Years_in_Business (parse_gmb_listing
        \<lparr>name_span = n, rating_span = r, child_divs = [''10+ years in business'']\<rparr> keyword)
       = Some ''10+''
   \<and> ((\<forall>b \<in> set before. \<forall>c \<in> set b. \<not> is_digit c) \<longrightarrow>
      Years_in_Business (parse_gmb_listing
        \<lparr>name_span = n, rating_span = r,
         child_divs = before @ ''12 years in business'' # after\<rparr> keyword) = Some ''12''
      \<and> Years_in_Business (parse_gmb_listing
        \<lparr>name_span = n, rating_span = r,
         child_divs = before @ ''10+ years in business'' # after\<rparr> keyword) = Some ''10+'')
   \<and> Years_in_Business (parse_gmb_listing e keyword) =
       (case re_search years_pattern (py_join '' '' (filter (\<lambda>t. t \<noteq> []) (child_divs e))) of
          None \<Rightarrow> None
        | Some m \<Rightarrow> groups m 1)
   \<and> (re_search years_pattern full_text = Some m \<longrightarrow>
        (\<exists>g. groups m 1 = Some g \<and> digits_plus_token g))
   \<and> Years_in_Business (parse_gmb_listing
        \<lparr>name_span = n, rating_span = r,
         child_divs = [''Plumber'', ''12 Years In Business'', ''Open'']\<rparr> keyword) = Some ''12''
   \<and> Years_in_Business (parse_gmb_listing
        \<lparr>name_span = n, rating_span = r,
         child_divs = [''In business since 1990'', ''10+'', ''YEARS IN BUSINESS'']\<rparr> keyword)
       = Some ''10+''
   \<and> Years_in_Business (parse_gmb_listing
        \<lparr>name_span = n, rating_span = r,
         child_divs = [''Suite 100'', ''12 years in business'']\<rparr> keyword) = Some ''12''"
proof -
  have a: "full_text_of (child_divs ea) = prea @ ''12 years in business'' @ posta
      \<and> no_match_before years_pattern prea (''12 years in business'' @ posta) \<longrightarrow>
      Years_in_Business (parse_gmb_listing ea keyword) = Some ''12''"
    using years_after_no_match [of ea prea "''12 years in business''" posta "''12''" keyword,
        OF _ _ years_12]
    by blast
  have b: "full_text_of (child_divs eb) = preb @ ''10+ years in business'' @ postb
      \<and> no_match_before years_pattern preb (''10+ years in business'' @ postb) \<longrightarrow>
      Years_in_Business (parse_gmb_listing eb keyword) = Some ''10+''"
    using years_after_no_match [of eb preb "''10+ years in business''" postb "''10+''" keyword,
        OF _ _ years_10_plus]
    by blast
  have c: "(\<forall>c \<in> set pre. \<not> is_digit c) \<longrightarrow> no_match_before years_pattern pre rest"
    using no_digit_no_years_match [of pre rest] by blast
  have 1: "(\<forall>b \<in> set before. \<forall>c \<in> set b. \<not> is_digit c) \<longrightarrow>
      Years_in_Business (parse_gmb_listing
        \<lparr>name_span = n, rating_span = r,
         child_divs = before @ ''12 years in business'' # after\<rparr> keyword) = Some ''12''
      \<and> Years_in_Business (parse_gmb_listing
        \<lparr>name_span = n, rating_span = r,
         child_divs = before @ ''10+ years in business'' # after\<rparr> keyword) = Some ''10+''"
    using years_in_context [of before "''12 years in business''" "''12''" n r after, OF _ _ years_12]
      years_in_context [of before "''10+ years in business''" "''10+''" n r after, OF _ _ years_10_plus]
    by (simp add: parse_refines_rules parse_by_rules_def)
  have 2: "Years_in_Business (parse_gmb_listing e keyword) =
       (case re_search years_pattern (py_join '' '' (filter (\<lambda>t. t \<noteq> []) (child_divs e))) of
          None \<Rightarrow> None
        | Some m \<Rightarrow> groups m 1)"
    by (simp add: parse_refines_rules parse_by_rules_def rule_years_def full_text_of_def)
  have 3: "re_search years_pattern full_text = Some m \<longrightarrow>
        (\<exists>g. groups m 1 = Some g \<and> digits_plus_token g)"
    using years_search [of full_text m] by blast
  have 4: "Years_in_Business (parse_gmb_listing
        \<lparr>name_span = n, rating_span = r,
         child_divs = [''Plumber'', ''12 Years In Business'', ''Open'']\<rparr> keyword) = Some ''12''"
    by (simp add: parse_refines_rules parse_by_rules_def rule_years_def full_text_of_def rx_eval
        lower_letters)
  have 5: "Years_in_Business (parse_gmb_listing
        \<lparr>name_span = n, rating_span = r,
         child_divs = [''In business since 1990'', ''10+'', ''YEARS IN BUSINESS'']\<rparr> keyword)
       = Some ''10+''"
    by (simp add: parse_refines_rules parse_by_rules_def rule_years_def full_text_of_def rx_eval
        lower_letters)
  have 6: "Years_in_Business (parse_gmb_listing
        \<lparr>name_span = n, rating_span = r, child_divs = [''12 years in business'']\<rparr> keyword)
       = Some ''12''"
    using years_in_context [of "[]" "''12 years in business''" "''12''" n r "[]", OF _ _ years_12]
    by (simp add: parse_refines_rules parse_by_rules_def)
  have 7: "Years_in_Business (parse_gmb_listing
        \<lparr>name_span = n, rating_span = r, child_divs = [''10+ years in business'']\<rparr> keyword)
       = Some ''10+''"
    using years_in_context [of "[]" "''10+ years in business''" "''10+''" n r "[]", OF _ _ years_10_plus]
    by (simp add: parse_refines_rules parse_by_rules_def)
  have 8: "Years_in_Business (parse_gmb_listing
        \<lparr>name_span = n, rating_span = r,
         child_divs = [''Suite 100'', ''12 years in business'']\<rparr> keyword) = Some ''12''"
    by (simp add: parse_refines_rules parse_by_rules_def rule_years_def full_text_of_def rx_eval)
  from a b c 6 7 1 2 3 4 5 8 show ?thesis by (intro conjI)
qed

text \<open>
  C7 as stated fails: a child text can contain \<open>12 years in business\<close> and give another
  token. In \<open>112 years in business\<close> the match starts one digit earlier and the field is
  \<open>112\<close>; with \<open>3 years in business\<close> in an earlier block the first match is that one and
  the field is \<open>3\<close>.
\<close>

theorem years_other_token_counterexample:
  "py_in ''12 years in business'' (full_text_of [''112 years in business''])
   \<and> Years_in_Business (parse_gmb_listing
        \<lparr>name_span = None, rating_span = None, child_divs = [''112 years in business'']\<rparr>
        ''plumber'') = Some ''112''
   \<and> py_in ''12 years in business'' (full_text_of [''3 years in business'', ''12 years in business''])
   \<and> Years_in_Business (parse_gmb_listing
        \<lparr>name_span = None, rating_span = None,
         child_divs = [''3 years in business'', ''12 years in business'']\<rparr>
        ''plumber'') = Some ''3''"
proof -
  have 1: "py_in ''12 years in business'' (full_text_of [''112 years in business''])"
    by (simp add: full_text_of_def)
  have 2: "Years_in_Business (parse_gmb_listing
        \<lparr>name_span = None, rating_span = None, child_divs = [''112 years in business'']\<rparr>
        ''plumber'') = Some ''112''"
    by (simp add: parse_refines_rules parse_by_rules_def rule_years_def full_text_of_def rx_eval)
  have 3: "py_in ''12 years in business''
      (full_text_of [''3 years in business'', ''12 years in business''])"
    by (simp add: full_text_of_def)
  have 4: "Years_in_Business (parse_gmb_listing
        \<lparr>name_span = None, rating_span = None,
         child_divs = [''3 years in business'', ''12 years in business'']\<rparr>
        ''plumber'') = Some ''3''"
    by (simp add: parse_refines_rules parse_by_rules_def rule_years_def full_text_of_def rx_eval)
  from 1 2 3 4 show ?thesis by (intro conjI)
qed

theorem years_in_business_capture_witness:
  "full_text_of [''Suite 100'', ''12 years in business'', ''Open 24 hours'']
       = ''Suite 100 '' @ ''12 years in business'' @ '' Open 24 hours''
   \<and> no_match_before years_pattern ''Suite 100 '' (''12 years in business'' @ '' Open 24 hours'')
   \<and> Years_in_Business (parse_gmb_listing
        \<lparr>name_span = Some ''Acme Plumbing'', rating_span = None,
         child_divs = [''Suite 100'', ''12 years in business'', ''Open 24 hours'']\<rparr>
        ''plumber'') = Some ''12''
   \<and> full_text_of [''Est. 1990'', ''10+ years in business'']
       = ''Est. 1990 '' @ ''10+ years in business'' @ []
   \<and> no_match_before years_pattern ''Est. 1990 '' (''10+ years in business'' @ [])
   \<and> Years_in_Business (parse_gmb_listing
        \<lparr>name_span = Some ''Acme Plumbing'', rating_span = None,
         child_divs = [''Est. 1990'', ''10+ years in business'']\<rparr>
        ''plumber'') = Some ''10+''
   \<and> list_all (\<lambda>c. \<not> is_digit c) ''Plumber in ''
   \<and> no_match_before years_pattern ''Plumber in '' ''12 years in business''
   \<and> list_all (list_all (\<lambda>c. \<not> is_digit c)) [''Acme Plumbing'', ''Plumber'']
   \<and> Years_in_Business (parse_gmb_listing
        \<lparr>name_span = Some ''Acme Plumbing'', rating_span = None,
         child_divs = [''Acme Plumbing'', ''Plumber''] @ ''12 years in business'' # [''Open 24 hours'']\<rparr>
        ''plumber'') = Some ''12''
   \<and> Years_in_Business (parse_gmb_listing
        \<lparr>name_span = Some ''Acme Plumbing'', rating_span = None,
         child_divs = [''Acme Plumbing'', ''Plumber''] @ ''10+ years in business'' # [''Open 24 hours'']\<rparr>
        ''plumber'') = Some ''10+''
   \<and> re_search years_pattern ''10+ years in business''
       = Some \<lparr>group0 = ''10+ years in business'', groups = [1 \<mapsto> ''10+'']\<rparr>
   \<and> digits_plus_token ''10+''"
proof -
  let ?ea = "\<lparr>name_span = Some ''Acme Plumbing'', rating_span = None,
         child_divs = [''Suite 100'', ''12 years in business'', ''Open 24 hours'']\<rparr>"
  let ?eb = "\<lparr>name_span = Some ''Acme Plumbing'', rating_span = None,
         child_divs = [''Est. 1990'', ''10+ years in business'']\<rparr>"
  have fa: "full_text_of [''Suite 100'', ''12 years in business'', ''Open 24 hours'']
       = ''Suite 100 '' @ ''12 years in business'' @ '' Open 24 hours''"
    by (simp add: full_text_of_def)
  have na: "no_match_before years_pattern ''Suite 100 '' (''12 years in business'' @ '' Open 24 hours'')"
    by (simp add: rx_eval)
  have fb: "full_text_of [''Est. 1990'', ''10+ years in business'']
       = ''Est. 1990 '' @ ''10+ years in business'' @ []"
    by (simp add: full_text_of_def)
  have nb: "no_match_before years_pattern ''Est. 1990 '' (''10+ years in business'' @ [])"
    by (simp add: rx_eval)
  have hc: "\<forall>c \<in> set ''Plumber in ''. \<not> is_digit c"
    by (simp add: is_digit_def)
  have hc': "list_all (\<lambda>c. \<not> is_digit c) ''Plumber in ''"
    by (simp add: is_digit_def)
  have h: "\<forall>b \<in> set [''Acme Plumbing'', ''Plumber'']. \<forall>c \<in> set b. \<not> is_digit c"
    by (simp add: is_digit_def)
  have h': "list_all (list_all (\<lambda>c. \<not> is_digit c)) [''Acme Plumbing'', ''Plumber'']"
    by (simp add: is_digit_def)
  have s: "re_search years_pattern ''10+ years in business''
       = Some \<lparr>group0 = ''10+ years in business'', groups = [1 \<mapsto> ''10+'']\<rparr>"
    using years_10_plus [of "[]"] by simp
  note t = years_in_business_capture
    [where ea = ?ea and prea = "''Suite 100 ''" and posta = "'' Open 24 hours''"
       and eb = ?eb and preb = "''Est. 1990 ''" and postb = "[]"
       and pre = "''Plumber in ''" and rest = "''12 years in business''"
       and before = "[''Acme Plumbing'', ''Plumber'']" and n = "Some ''Acme Plumbing''"
       and r = None and after = "[''Open 24 hours'']" and keyword = "''plumber''"
       and full_text = "''10+ years in business''"
       and m = "\<lparr>group0 = ''10+ years in business'', groups = [1 \<mapsto> ''10+'']\<rparr>"]
  from t [THEN conjunct1] fa na
  have A: "Years_in_Business (parse_gmb_listing ?ea ''plumber'') = Some ''12''"
    by (simp only: fragment.simps simp_thms)
  from t [THEN conjunct2, THEN conjunct1] fb nb
  have B: "Years_in_Business (parse_gmb_listing ?eb ''plumber'') = Some ''10+''"
    by (simp only: fragment.simps simp_thms)
  note C = t [THEN conjunct2, THEN conjunct2, THEN conjunct1, THEN mp, OF hc]
  note D = t [THEN conjunct2, THEN conjunct2, THEN conjunct2, THEN conjunct2, THEN conjunct2,
      THEN conjunct1, THEN mp, OF h]
  from t [THEN conjunct2, THEN conjunct2, THEN conjunct2, THEN conjunct2, THEN conjunct2,
      THEN conjunct2, THEN conjunct2, THEN conjunct1, THEN mp, OF s]
  have E: "digits_plus_token ''10+''" by simp
  from fa na A fb nb B hc' C h' D [THEN conjunct1] D [THEN conjunct2] s E
  show ?thesis by (intro conjI)
qed

section \<open>Properties of the CAPTCHA handler and the Orchestrator\<close>

lemma captcha_loop_effect:
  assumes "captcha_loop cfg s keyword k alert_sent st = Some y"
  shows "snd y = st \<or> (\<not> alert_sent \<and> snd y = captcha_alert cfg keyword st)"
proof (rule captcha_loop.raw_induct
    [where P = "\<lambda>cfg s keyword k alert_sent st y.
        snd y = st \<or> (\<not> alert_sent \<and> snd y = captcha_alert cfg keyword st)", OF _ assms])
  fix loop :: "config \<Rightarrow> session \<Rightarrow> string \<Rightarrow> nat \<Rightarrow> bool \<Rightarrow> run_state
      \<Rightarrow> (bool \<times> run_state) option"
  fix cfg s keyword k alert_sent st y
  assume IH: "\<And>cfg s keyword k alert_sent st y.
      loop cfg s keyword k alert_sent st = Some y \<Longrightarrow>
      snd y = st \<or> (\<not> alert_sent \<and> snd y = captcha_alert cfg keyword st)"
  assume eq: "(if captcha_clock s k < of_nat (CAPTCHA_WAIT_TIMEOUT cfg) then
        if \<not> captcha_polls s k then Some (True, st)
        else loop cfg s keyword (Suc k) True
               (if \<not> alert_sent then captcha_alert cfg keyword st else st)
      else Some (False, st)) = Some y"
  show "snd y = st \<or> (\<not> alert_sent \<and> snd y = captcha_alert cfg keyword st)"
  proof (cases "captcha_clock s k < of_nat (CAPTCHA_WAIT_TIMEOUT cfg) \<and> captcha_polls s k")
    case False
    with eq show ?thesis by (auto split: if_splits)
  next
    case True
    with eq have "loop cfg s keyword (Suc k) True
               (if \<not> alert_sent then captcha_alert cfg keyword st else st) = Some y"
      by simp
    from IH [OF this]
    have "snd y = (if \<not> alert_sent then captcha_alert cfg keyword st else st)" by simp
    then show ?thesis by (cases alert_sent) simp_all
  qed
qed


lemma captcha_loop_timed_out:
  "of_nat (CAPTCHA_WAIT_TIMEOUT cfg) \<le> captcha_clock s (k + j) \<Longrightarrow>
   \<forall>i < j. captcha_clock s (k + i) < of_nat (CAPTCHA_WAIT_TIMEOUT cfg) \<and> captcha_polls s (k + i) \<Longrightarrow>
   captcha_loop cfg s keyword k alert_sent st =
     Some (False, if j = 0 \<or> alert_sent then st else captcha_alert cfg keyword st)"
proof (induction j arbitrary: k alert_sent st)
  case 0
  then have "\<not> captcha_clock s k < of_nat (CAPTCHA_WAIT_TIMEOUT cfg)" by simp
  then show ?case by (subst captcha_loop.simps) simp
next
  case (Suc j)
  from Suc.prems(2) have here: "captcha_polls s k"
    and now: "captcha_clock s k < of_nat (CAPTCHA_WAIT_TIMEOUT cfg)" by force+
  from Suc.prems(1) have 1: "of_nat (CAPTCHA_WAIT_TIMEOUT cfg) \<le> captcha_clock s (Suc k + j)"
    by simp
  have 2: "\<forall>i < j. captcha_clock s (Suc k + i) < of_nat (CAPTCHA_WAIT_TIMEOUT cfg)
      \<and> captcha_polls s (Suc k + i)"
  proof (intro allI impI)
    fix i assume "i < j"
    then have "Suc i < Suc j" by simp
    with Suc.prems(2) have "captcha_clock s (k + Suc i) < of_nat (CAPTCHA_WAIT_TIMEOUT cfg)
        \<and> captcha_polls s (k + Suc i)" by blast
    then show "captcha_clock s (Suc k + i) < of_nat (CAPTCHA_WAIT_TIMEOUT cfg)
        \<and> captcha_polls s (Suc k + i)" by simp
  qed
  note ih = Suc.IH [OF 1 2, of True "if \<not> alert_sent then captcha_alert cfg keyword st else st"]
  show ?case
    by (subst captcha_loop.simps) (simp add: here now ih)
qed


lemma captcha_alert_fields:
  "notifications (captcha_alert cfg keyword st) =
     notifications st @ [(''GMB Scraper Alert: CAPTCHA - Action Required'', captcha_email_body keyword)]"
  "progress_file (captcha_alert cfg keyword st) = progress_file st"
  "all_gmb_data (captcha_alert cfg keyword st) = all_gmb_data st"
  "pages_logged (captcha_alert cfg keyword st) = pages_logged st"
  "excel_file (captcha_alert cfg keyword st) = excel_file st"
  by (simp_all add: captcha_alert_def send_error_email_def Let_def)

lemma handle_captcha_effect:
  assumes "handle_captcha cfg s keyword st = Some (b, st')"
  shows "st' = st \<or> st' = captcha_alert cfg keyword st"
  using captcha_loop_effect [of cfg s keyword 0 False st "(b, st')"] assms
  by (auto simp: handle_captcha_def)

lemma handle_captcha_frame:
  assumes "handle_captcha cfg s keyword st = Some (b, st')"
  shows "progress_file st' = progress_file st \<and> all_gmb_data st' = all_gmb_data st
     \<and> pages_logged st' = pages_logged st \<and> excel_file st' = excel_file st"
  using handle_captcha_effect [OF assms] by (auto simp: captcha_alert_fields)

lemma collect_listings_eq:
  "collect_listings es keyword acc =
     acc @ filter (\<lambda>d. truthy (Name d)) (map (\<lambda>e. parse_gmb_listing e keyword) es)"
  by (induction es arbitrary: acc) (simp_all add: Let_def)

lemma pages_until_stop_simps:
  "pages_until_stop (Page [] nxt) = 1"
  "pages_until_stop (Page ls None) = 1"
  "ls \<noteq> [] \<Longrightarrow> pages_until_stop (Page ls (Some p)) = Suc (pages_until_stop p)"
  by (simp_all add: pages_until_stop_def)

lemma page_records_empty: "page_records keyword (Page [] nxt) = []"
  by (simp add: page_records_def)

lemma pagination_loop_result:
  "pagination_loop nums keyword pg st =
     st\<lparr>pages_logged := pages_logged st @ map (Pair keyword) (take (pages_until_stop pg) nums),
        all_gmb_data := all_gmb_data st
          @ concat (map (page_records keyword)
                        (take (min (length nums) (pages_until_stop pg)) (page_chain pg)))\<rparr>"
proof (induction nums arbitrary: pg st)
  case Nil
  show ?case by simp
next
  case (Cons n rest)
  obtain ls nxt where pg: "pg = Page ls nxt" by (cases pg)
  show ?case
  proof (cases "ls = []")
    case True
    then show ?thesis
      by (simp add: pg pages_until_stop_simps page_records_empty)
  next
    case False
    show ?thesis
    proof (cases nxt)
      case None
      with False show ?thesis
        by (simp add: pg pages_until_stop_simps collect_listings_eq page_records_def)
    next
      case (Some p)
      with False show ?thesis
        by (simp add: pg pages_until_stop_simps collect_listings_eq page_records_def Cons.IH)
    qed
  qed
qed

lemma take_upt_from_1: "take k [1 ..< Suc n] = [1 ..< Suc (min n k)]"
  by (simp add: take_upt min_def) 

lemma process_keyword_pages:
  assumes "process_keyword cfg keyword s st = Some st'"
  shows "length (pages_logged st') \<le> length (pages_logged st) + MAX_GMB_PAGES_TO_SCRAPE"
proof (cases "find_and_type_in_search_box s keyword")
  case False
  with assms show ?thesis by (simp add: process_keyword_def)
next
  case True
  obtain solved st1 where h: "(if captcha_detected s then handle_captcha cfg s keyword st
               else Some (True, st)) = Some (solved, st1)"
    using assms True by (auto simp: process_keyword_def split: option.splits)
  then have fr: "pages_logged st1 = pages_logged st"
    using handle_captcha_frame [of cfg s keyword st solved st1]
    by (auto split: if_splits)
  from assms True h have "st' = record_completed keyword st1
      \<or> st' = record_completed keyword
          (pagination_loop [1 ..< MAX_GMB_PAGES_TO_SCRAPE + 1] keyword (first_page s) st1)"
    by (auto simp: process_keyword_def split: if_splits)
  then show ?thesis
    by (auto simp: record_completed_def pagination_loop_result fr)
qed

text \<open>
  C5. Started on a page, the pagination loop logs the page numbers 1 up to the smaller
  of \<open>MAX_GMB_PAGES_TO_SCRAPE\<close> = 10 and the number of pages up to and including the
  first one with no listing fragment or no `next' control, and it collects the records
  of exactly those pages. That number is 1 for a page without fragments and for a page
  without the control, and one more than for the next page otherwise. Processing a
  keyword never logs more than ten pages.
\<close>

theorem pagination_bounded:
  "pages_logged (pagination_loop [1 ..< MAX_GMB_PAGES_TO_SCRAPE + 1] keyword pg st) =
     pages_logged st
     @ map (Pair keyword) [1 ..< Suc (min MAX_GMB_PAGES_TO_SCRAPE (pages_until_stop pg))]
   \<and> all_gmb_data (pagination_loop [1 ..< MAX_GMB_PAGES_TO_SCRAPE + 1] keyword pg st) =
     all_gmb_data st
     @ concat (map (page_records keyword)
                   (take (min MAX_GMB_PAGES_TO_SCRAPE (pages_until_stop pg)) (page_chain pg)))
   \<and> min MAX_GMB_PAGES_TO_SCRAPE (pages_until_stop pg) \<le> 10
   \<and> pages_until_stop (Page [] nxt) = 1
   \<and> pages_until_stop (Page ls None) = 1
   \<and> pages_until_stop (Page (e # es) (Some p)) = Suc (pages_until_stop p)
   \<and> (case process_keyword cfg keyword s st of
         None \<Rightarrow> True
       | Some st' \<Rightarrow> length (pages_logged st') \<le> length (pages_logged st) + 10)"
proof -
  have 1: "pages_logged (pagination_loop [1 ..< MAX_GMB_PAGES_TO_SCRAPE + 1] keyword pg st) =
     pages_logged st
     @ map (Pair keyword) [1 ..< Suc (min MAX_GMB_PAGES_TO_SCRAPE (pages_until_stop pg))]"
    using take_upt_from_1 [of "pages_until_stop pg" MAX_GMB_PAGES_TO_SCRAPE]
    by (simp add: pagination_loop_result)
  have 2: "all_gmb_data (pagination_loop [1 ..< MAX_GMB_PAGES_TO_SCRAPE + 1] keyword pg st) =
     all_gmb_data st
     @ concat (map (page_records keyword)
                   (take (min MAX_GMB_PAGES_TO_SCRAPE (pages_until_stop pg)) (page_chain pg)))"
    by (simp add: pagination_loop_result MAX_GMB_PAGES_TO_SCRAPE_def)
  have 3: "min MAX_GMB_PAGES_TO_SCRAPE (pages_until_stop pg) \<le> 10"
    by (simp add: MAX_GMB_PAGES_TO_SCRAPE_def)
  have 4: "case process_keyword cfg keyword s st of
         None \<Rightarrow> True
       | Some st' \<Rightarrow> length (pages_logged st') \<le> length (pages_logged st) + 10"
    using process_keyword_pages [of cfg keyword s st]
    by (auto simp: MAX_GMB_PAGES_TO_SCRAPE_def split: option.splits)
  from 1 2 3 4 pages_until_stop_simps(1) [of nxt] pages_until_stop_simps(2) [of ls]
    pages_until_stop_simps(3) [of "e # es" p]
  show ?thesis by simp
qed

lemma Keyword_parse: "Keyword (parse_gmb_listing e keyword) = keyword"
  by (simp add: parse_refines_rules parse_by_rules_def)

lemma page_records_member:
  "d \<in> set (page_records keyword pg) \<Longrightarrow>
   truthy (Name d) \<and> (\<exists>e \<in> set (listings pg). d = parse_gmb_listing e keyword)"
  by (auto simp: page_records_def)

lemma pagination_loop_data:
  assumes "d \<in> set (all_gmb_data (pagination_loop nums keyword (first_page s) st))"
  shows "d \<in> set (all_gmb_data st) \<or> (truthy (Name d) \<and> scraped_from keyword s d)"
proof -
  from assms have "d \<in> set (all_gmb_data st)
      \<or> (\<exists>pg \<in> set (page_chain (first_page s)). d \<in> set (page_records keyword pg))"
    by (auto simp: pagination_loop_result dest: in_set_takeD)
  then show ?thesis
    using page_records_member by (fastforce simp: scraped_from_def)
qed

lemma process_keyword_data:
  assumes "process_keyword cfg keyword s st = Some st'"
    and "d \<in> set (all_gmb_data st')"
  shows "d \<in> set (all_gmb_data st) \<or> (truthy (Name d) \<and> scraped_from keyword s d)"
proof (cases "find_and_type_in_search_box s keyword")
  case False
  with assms show ?thesis by (simp add: process_keyword_def)
next
  case True
  obtain solved st1 where h: "(if captcha_detected s then handle_captcha cfg s keyword st
               else Some (True, st)) = Some (solved, st1)"
    using assms True by (auto simp: process_keyword_def split: option.splits)
  then have fr: "all_gmb_data st1 = all_gmb_data st"
    using handle_captcha_frame [of cfg s keyword st solved st1]
    by (auto split: if_splits)
  from assms(1) True h have "st' = record_completed keyword st1
      \<or> st' = record_completed keyword
          (pagination_loop [1 ..< MAX_GMB_PAGES_TO_SCRAPE + 1] keyword (first_page s) st1)"
    by (auto simp: process_keyword_def split: if_splits)
  then show ?thesis
  proof
    assume "st' = record_completed keyword st1"
    with assms(2) fr show ?thesis by (simp add: record_completed_def)
  next
    assume "st' = record_completed keyword
          (pagination_loop [1 ..< MAX_GMB_PAGES_TO_SCRAPE + 1] keyword (first_page s) st1)"
    with assms(2) have "d \<in> set (all_gmb_data
          (pagination_loop [1 ..< MAX_GMB_PAGES_TO_SCRAPE + 1] keyword (first_page s) st1))"
      by (simp add: record_completed_def)
    from pagination_loop_data [OF this] fr show ?thesis by simp
  qed
qed

lemma main_loop_data:
  assumes "main_loop cfg browser completed kws st = Some st'"
    and "d \<in> set (all_gmb_data st')"
  shows "d \<in> set (all_gmb_data st)
     \<or> (truthy (Name d) \<and> (\<exists>i keyword. (i, keyword) \<in> set kws \<and> keyword \<notin> completed
           \<and> Keyword d = keyword \<and> scraped_from keyword (browser i) d))"
  using assms
proof (induction kws arbitrary: st)
  case Nil
  then show ?case by simp
next
  case (Cons ik kws)
  obtain i keyword where ik: "ik = (i, keyword)" by (cases ik)
  show ?case
  proof (cases "keyword \<in> completed")
    case True
    with Cons.prems ik have "main_loop cfg browser completed kws st = Some st'" by simp
    from Cons.IH [OF this Cons.prems(2)] show ?thesis by auto
  next
    case False
    with Cons.prems(1) ik obtain st1 where p: "process_keyword cfg keyword (browser i) st = Some st1"
      and m: "main_loop cfg browser completed kws st1 = Some st'"
      by (auto split: option.splits)
    from Cons.IH [OF m Cons.prems(2)] show ?thesis
    proof
      assume "d \<in> set (all_gmb_data st1)"
      from process_keyword_data [OF p this] show ?thesis
      proof
        assume "d \<in> set (all_gmb_data st)"
        then show ?thesis by simp
      next
        assume a: "truthy (Name d) \<and> scraped_from keyword (browser i) d"
        then have "Keyword d = keyword" by (auto simp: scraped_from_def Keyword_parse)
        with a False ik show ?thesis by auto
      qed
    next
      assume "truthy (Name d) \<and> (\<exists>i keyword. (i, keyword) \<in> set kws \<and> keyword \<notin> completed
           \<and> Keyword d = keyword \<and> scraped_from keyword (browser i) d)"
      then show ?thesis by auto
    qed
  qed
qed

text \<open>
  C8. Every record in the result set at the end of a run has a name that is neither
  absent nor empty, carries a keyword of the sheet that was not already completed, is
  the parse under that keyword of a fragment shown for that keyword, and is in the
  export.
\<close>

theorem result_set_invariant:
  "main cfg browser col_values st0 = Some st' \<Longrightarrow> d \<in> set (all_gmb_data st') \<Longrightarrow>
     Name d \<noteq> None \<and> Name d \<noteq> Some []
     \<and> (\<exists>i keyword. (i, keyword) \<in> set (enumerate 0 (get_keywords_from_sheet col_values))
           \<and> keyword \<notin> load_completed_keywords (progress_file st0)
           \<and> Keyword d = keyword \<and> scraped_from keyword (browser i) d)
     \<and> excel_file st' = Some (all_gmb_data st')"
proof -
  assume m: "main cfg browser col_values st0 = Some st'" and d: "d \<in> set (all_gmb_data st')"
  let ?st = "st0\<lparr>all_gmb_data := []\<rparr>"
  from m obtain st1 where l: "main_loop cfg browser (load_completed_keywords (progress_file st0))
      (enumerate 0 (get_keywords_from_sheet col_values)) ?st = Some st1"
    and st': "st' = (if all_gmb_data st1 \<noteq> [] then st1\<lparr>excel_file := Some (all_gmb_data st1)\<rparr> else st1)"
    by (auto simp: main_def Let_def split: option.splits if_splits)
  from st' have eq: "all_gmb_data st' = all_gmb_data st1" by simp
  with d have d1: "d \<in> set (all_gmb_data st1)" by simp
  then have "all_gmb_data st1 \<noteq> []" by auto
  with st' have x: "excel_file st' = Some (all_gmb_data st')" by simp
  from main_loop_data [OF l d1]
  have "truthy (Name d) \<and> (\<exists>i keyword. (i, keyword) \<in> set (enumerate 0 (get_keywords_from_sheet col_values))
           \<and> keyword \<notin> load_completed_keywords (progress_file st0)
           \<and> Keyword d = keyword \<and> scraped_from keyword (browser i) d)"
    by simp
  moreover have "truthy (Name d) \<Longrightarrow> Name d \<noteq> None \<and> Name d \<noteq> Some []"
    by (auto simp: truthy_def split: option.splits)
  ultimately show ?thesis using x by blast
qed

text \<open>
  C1 (as amended). When the search box is not found, the keyword leaves the state as it
  was, progress file included. When the CAPTCHA handler gives up, and when the `More
  businesses' link is not found, the keyword is saved to the progress file once and no
  record is added. In each case the keyword loop goes on with the next keyword.
\<close>

theorem recoverable_outcomes:
  "(\<not> search_box_found sa \<longrightarrow> process_keyword cfg keyword sa st = Some st)
   \<and> (search_box_found sb \<and> captcha_detected sb
       \<and> handle_captcha cfg sb keyword st = Some (False, stb) \<longrightarrow>
        process_keyword cfg keyword sb st = Some (record_completed keyword stb)
        \<and> progress_file (record_completed keyword stb)
            = save_completed_keyword keyword (progress_file st)
        \<and> all_gmb_data (record_completed keyword stb) = all_gmb_data st)
   \<and> (search_box_found sc \<and> \<not> more_button_found sc
       \<and> (if captcha_detected sc then handle_captcha cfg sc keyword st
           else Some (True, st)) = Some (True, stc) \<longrightarrow>
        process_keyword cfg keyword sc st = Some (record_completed keyword stc)
        \<and> progress_file (record_completed keyword stc)
            = save_completed_keyword keyword (progress_file st)
        \<and> all_gmb_data (record_completed keyword stc) = all_gmb_data st)
   \<and> (keyword \<notin> completed \<and> process_keyword cfg keyword (browser i) st = Some st' \<longrightarrow>
        main_loop cfg browser completed ((i, keyword) # rest) st
          = main_loop cfg browser completed rest st')"
proof -
  have 0: "\<not> search_box_found sa \<longrightarrow> process_keyword cfg keyword sa st = Some st"
    by (simp add: process_keyword_def find_and_type_in_search_box_def)
  have 1: "search_box_found sb \<and> captcha_detected sb
       \<and> handle_captcha cfg sb keyword st = Some (False, stb) \<longrightarrow>
        process_keyword cfg keyword sb st = Some (record_completed keyword stb)
        \<and> progress_file (record_completed keyword stb)
            = save_completed_keyword keyword (progress_file st)
        \<and> all_gmb_data (record_completed keyword stb) = all_gmb_data st"
    using handle_captcha_frame [of cfg sb keyword st False stb]
    by (simp add: process_keyword_def find_and_type_in_search_box_def record_completed_def)
  have 2: "search_box_found sc \<and> \<not> more_button_found sc
       \<and> (if captcha_detected sc then handle_captcha cfg sc keyword st
           else Some (True, st)) = Some (True, stc) \<longrightarrow>
        process_keyword cfg keyword sc st = Some (record_completed keyword stc)
        \<and> progress_file (record_completed keyword stc)
            = save_completed_keyword keyword (progress_file st)
        \<and> all_gmb_data (record_completed keyword stc) = all_gmb_data st"
    using handle_captcha_frame [of cfg sc keyword st True stc]
    by (auto simp: process_keyword_def find_and_type_in_search_box_def record_completed_def
        split: if_splits)
  have 3: "keyword \<notin> completed \<and> process_keyword cfg keyword (browser i) st = Some st' \<longrightarrow>
        main_loop cfg browser completed ((i, keyword) # rest) st
          = main_loop cfg browser completed rest st'"
    by simp
  from 0 1 2 3 show ?thesis by (intro conjI)
qed

text \<open>
  C1 as stated fails on the first outcome: with no search box, the run over the one
  keyword ends in the state it started in, and the keyword is not in the progress set.
\<close>

theorem search_box_not_recorded_counterexample:
  "process_keyword example_config ''plumbers near me''
      \<lparr>search_box_found = False, captcha_detected = False,
      captcha_clock = (\<lambda>k. 6 * of_nat k), captcha_polls = (\<lambda>k. False),
       more_button_found = True, first_page = Page [] None\<rparr> fresh_state = Some fresh_state
   \<and> main_loop example_config
        (\<lambda>i. \<lparr>search_box_found = False, captcha_detected = False,
      captcha_clock = (\<lambda>k. 6 * of_nat k), captcha_polls = (\<lambda>k. False),
              more_button_found = True, first_page = Page [] None\<rparr>)
        {} [(0, ''plumbers near me'')] fresh_state = Some fresh_state
   \<and> progress_file fresh_state = None
   \<and> ''plumbers near me'' \<notin> load_completed_keywords (progress_file fresh_state)"
  by (simp add: process_keyword_def find_and_type_in_search_box_def load_completed_keywords_def)


lemma handle_captcha_timed_out:
  assumes "of_nat (CAPTCHA_WAIT_TIMEOUT cfg) \<le> captcha_clock s j"
    "\<forall>i<j. captcha_clock s i < of_nat (CAPTCHA_WAIT_TIMEOUT cfg) \<and> captcha_polls s i"
  shows "handle_captcha cfg s keyword st =
     Some (False, if j = 0 then st else captcha_alert cfg keyword st)"
  using captcha_loop_timed_out [of cfg s 0 j keyword False st] assms
  by (simp add: handle_captcha_def)





lemma stuck_clock:
  "of_nat (CAPTCHA_WAIT_TIMEOUT example_config) \<le> captcha_clock stuck_session 100
   \<and> (\<forall>i<100. captcha_clock stuck_session i < of_nat (CAPTCHA_WAIT_TIMEOUT example_config)
               \<and> captcha_polls stuck_session i)"
proof -
  have "(6 * of_nat i :: rat) < 600" if "i < 100" for i :: nat
  proof -
    from that have "(of_nat i :: rat) < of_nat 100" by (simp only: of_nat_less_iff)
    then show ?thesis by simp
  qed
  then show ?thesis by simp
qed

lemma stuck_times_out:
  "handle_captcha example_config stuck_session keyword st =
     Some (False, captcha_alert example_config keyword st)"
  using handle_captcha_timed_out [of example_config stuck_session 100 keyword st] stuck_clock
  by simp


theorem recoverable_outcomes_witness:
  "process_keyword example_config ''plumbers near me''
      \<lparr>search_box_found = False, captcha_detected = False,
      captcha_clock = (\<lambda>k. 6 * of_nat k), captcha_polls = (\<lambda>k. False),
       more_button_found = True, first_page = Page [] None\<rparr> fresh_state = Some fresh_state
   \<and> process_keyword example_config ''plumbers near me'' stuck_session fresh_state
     = Some (record_completed ''plumbers near me''
               (captcha_alert example_config ''plumbers near me'' fresh_state))
   \<and> progress_file (record_completed ''plumbers near me''
               (captcha_alert example_config ''plumbers near me'' fresh_state))
     = Some (''plumbers near me'' @ [LF])
   \<and> process_keyword example_config ''plumbers near me'' bare_session fresh_state
     = Some (record_completed ''plumbers near me'' fresh_state)
   \<and> progress_file (record_completed ''plumbers near me'' fresh_state)
     = Some (''plumbers near me'' @ [LF])
   \<and> main_loop example_config (\<lambda>i. bare_session) {}
        [(0, ''plumbers near me''), (1, ''electricians'')] fresh_state
     = main_loop example_config (\<lambda>i. bare_session) {} [(1, ''electricians'')]
         (record_completed ''plumbers near me'' fresh_state)"
proof -
  note t = recoverable_outcomes
    [where sa = "\<lparr>search_box_found = False, captcha_detected = False,
      captcha_clock = (\<lambda>k. 6 * of_nat k), captcha_polls = (\<lambda>k. False),
       more_button_found = True, first_page = Page [] None\<rparr>"
       and cfg = example_config and keyword = "''plumbers near me''" and st = fresh_state
       and sb = stuck_session
       and stb = "captcha_alert example_config ''plumbers near me'' fresh_state"
       and sc = bare_session and stc = fresh_state
       and completed = "{}" and browser = "\<lambda>i. bare_session" and i = 0
       and st' = "record_completed ''plumbers near me'' fresh_state"
       and rest = "[(1, ''electricians'')]"]
  have ha: "\<not> search_box_found \<lparr>search_box_found = False, captcha_detected = False,
      captcha_clock = (\<lambda>k. 6 * of_nat k), captcha_polls = (\<lambda>k. False), more_button_found = True, first_page = Page [] None\<rparr>"
    by simp
  have hb: "search_box_found stuck_session \<and> captcha_detected stuck_session
      \<and> handle_captcha example_config stuck_session ''plumbers near me'' fresh_state
          = Some (False, captcha_alert example_config ''plumbers near me'' fresh_state)"
    using stuck_times_out [of "''plumbers near me''" fresh_state] by (simp only: session.simps simp_thms)
  have hc: "search_box_found bare_session \<and> \<not> more_button_found bare_session
      \<and> (if captcha_detected bare_session
          then handle_captcha example_config bare_session ''plumbers near me'' fresh_state
          else Some (True, fresh_state)) = Some (True, fresh_state)"
    by simp
  note A = t [THEN conjunct1, THEN mp, OF ha]
  note B = t [THEN conjunct2, THEN conjunct1, THEN mp, OF hb]
  note C = t [THEN conjunct2, THEN conjunct2, THEN conjunct1, THEN mp, OF hc]
  have hd: "''plumbers near me'' \<notin> {}
      \<and> process_keyword example_config ''plumbers near me'' bare_session fresh_state
          = Some (record_completed ''plumbers near me'' fresh_state)"
    using C by simp
  note D = t [THEN conjunct2, THEN conjunct2, THEN conjunct2, THEN mp, OF hd]
  from B [THEN conjunct2, THEN conjunct1]
  have B2: "progress_file (record_completed ''plumbers near me''
               (captcha_alert example_config ''plumbers near me'' fresh_state))
     = Some (''plumbers near me'' @ [LF])"
    by (simp add: save_completed_keyword_def)
  from C [THEN conjunct2, THEN conjunct1]
  have C2: "progress_file (record_completed ''plumbers near me'' fresh_state)
     = Some (''plumbers near me'' @ [LF])"
    by (simp add: save_completed_keyword_def)
  from A B [THEN conjunct1] B2 C [THEN conjunct1] C2 D
  show ?thesis by (intro conjI)
qed

theorem pagination_bounded_witness:
  "pages_logged (pagination_loop [1 ..< MAX_GMB_PAGES_TO_SCRAPE + 1] ''plumber''
      (Page [\<lparr>name_span = Some ''Acme'', rating_span = None, child_divs = []\<rparr>]
         (Some (Page [\<lparr>name_span = Some ''Best'', rating_span = None, child_divs = []\<rparr>] None)))
      fresh_state) = [(''plumber'', 1), (''plumber'', 2)]
   \<and> pages_logged (pagination_loop [1 ..< MAX_GMB_PAGES_TO_SCRAPE + 1] ''plumber''
      (Page [] (Some (Page [\<lparr>name_span = Some ''Best'', rating_span = None, child_divs = []\<rparr>] None)))
      fresh_state) = [(''plumber'', 1)]"
proof -
  have 1: "pages_until_stop
      (Page [\<lparr>name_span = Some ''Acme'', rating_span = None, child_divs = []\<rparr>]
         (Some (Page [\<lparr>name_span = Some ''Best'', rating_span = None, child_divs = []\<rparr>] None))) = 2"
    by (simp add: pages_until_stop_def)
  have 2: "pages_until_stop
      (Page [] (Some (Page [\<lparr>name_span = Some ''Best'', rating_span = None, child_divs = []\<rparr>] None)))
      = 1"
    by (simp add: pages_until_stop_def)
  from pagination_bounded
    [where pg = "Page [\<lparr>name_span = Some ''Acme'', rating_span = None, child_divs = []\<rparr>]
         (Some (Page [\<lparr>name_span = Some ''Best'', rating_span = None, child_divs = []\<rparr>] None))"
       and keyword = "''plumber''" and st = fresh_state, THEN conjunct1]
  have A: "pages_logged (pagination_loop [1 ..< MAX_GMB_PAGES_TO_SCRAPE + 1] ''plumber''
      (Page [\<lparr>name_span = Some ''Acme'', rating_span = None, child_divs = []\<rparr>]
         (Some (Page [\<lparr>name_span = Some ''Best'', rating_span = None, child_divs = []\<rparr>] None)))
      fresh_state) = [(''plumber'', 1), (''plumber'', 2)]"
    by (simp only: 1) (simp add: MAX_GMB_PAGES_TO_SCRAPE_def upt_conv_Cons)
  from pagination_bounded
    [where pg = "Page [] (Some (Page [\<lparr>name_span = Some ''Best'', rating_span = None, child_divs = []\<rparr>] None))"
       and keyword = "''plumber''" and st = fresh_state, THEN conjunct1]
  have B: "pages_logged (pagination_loop [1 ..< MAX_GMB_PAGES_TO_SCRAPE + 1] ''plumber''
      (Page [] (Some (Page [\<lparr>name_span = Some ''Best'', rating_span = None, child_divs = []\<rparr>] None)))
      fresh_state) = [(''plumber'', 1)]"
    by (simp only: 2) (simp add: MAX_GMB_PAGES_TO_SCRAPE_def upt_conv_Cons)
  from A B show ?thesis by (intro conjI)
qed

lemma parse_bare_fragment:
  "parse_gmb_listing \<lparr>name_span = n, rating_span = None, child_divs = []\<rparr> keyword =
     \<lparr>Keyword = keyword, Name = n, Rating = None, Number_of_Reviews = None, Category = None,
      Years_in_Business = None, Address = None, Phone_Number = None\<rparr>"
  by (simp add: parse_refines_rules parse_by_rules_def rule_rating_def rule_reviews_def
      rule_category_def rule_years_def rule_phone_def rule_address_def full_text_of_def rx_eval)

theorem result_set_invariant_witness:
  "main example_config (\<lambda>i. one_page_session) [''Keywords'', ''plumber''] fresh_state =
     Some (fresh_state\<lparr>progress_file := Some (''plumber'' @ [LF]), all_gmb_data := [acme_record],
             pages_logged := [(''plumber'', 1)], excel_file := Some [acme_record]\<rparr>)
   \<and> Name acme_record \<noteq> None \<and> Name acme_record \<noteq> Some []
   \<and> Keyword acme_record = ''plumber''"
proof -
  have k: "get_keywords_from_sheet [''Keywords'', ''plumber''] = [''plumber'']"
    by (simp add: get_keywords_from_sheet_def py_strip_def is_space_def)
  have m: "main example_config (\<lambda>i. one_page_session) [''Keywords'', ''plumber''] fresh_state =
     Some (fresh_state\<lparr>progress_file := Some (''plumber'' @ [LF]), all_gmb_data := [acme_record],
             pages_logged := [(''plumber'', 1)], excel_file := Some [acme_record]\<rparr>)"
    by (simp add: main_def k load_completed_keywords_def process_keyword_def
        find_and_type_in_search_box_def record_completed_def save_completed_keyword_def
        MAX_GMB_PAGES_TO_SCRAPE_def upt_conv_Cons Let_def parse_bare_fragment truthy_def)
  have d: "acme_record \<in> set (all_gmb_data
      (fresh_state\<lparr>progress_file := Some (''plumber'' @ [LF]), all_gmb_data := [acme_record],
             pages_logged := [(''plumber'', 1)], excel_file := Some [acme_record]\<rparr>))"
    by simp
  note t = result_set_invariant [OF m d]
  from m t [THEN conjunct1] t [THEN conjunct2, THEN conjunct1]
  show ?thesis by simp
qed

end
